theory Spec2Isabelle
  imports Main
begin

chapter \<open>The model\<close>

section \<open>Data model\<close>

text \<open>
  Page numbers and list indices are JavaScript numbers holding integers; they are
  modelled as \<open>int\<close>.  Chunk ids start at 1 and only ever grow, they are \<open>nat\<close>.

  \<^verbatim>\<open>
  const bookmarks: { title: string; page: number }[] = [];
  export interface Chunk { id: number; startPage: number; endPage: number;
                           text?: string; contextTitle?: string; }
  \<close>
  The entries of \<open>initialChunks\<close> and \<open>finalChunks\<close> are chunks without an id; a
  \<open>chunk\<close> extends them by the id.  The optional field \<open>text\<close> is never written by the
  code under study and is left out.
\<close>

record bookmark =
  title :: string
  page :: int

record page_range =
  startPage :: int
  endPage :: int
  contextTitle :: "string option"

record chunk = page_range +
  id_chunk :: nat

text \<open>
  \<^verbatim>\<open>
  export interface QAPair { input_text: string; output_text: string; }
  \<close>
  A raw pair is what the generation service returns, declared as
  \<^verbatim>\<open>{ question: string; answer: string }\<close>; the normalizer tests both fields for
  falsiness, so an absent field is part of the model (\<open>None\<close>).
\<close>

record QAPair =
  input_text :: string
  output_text :: string

record RawPair =
  question :: "string option"
  answer :: "string option"

section \<open>Strings\<close>

text \<open>
  Strings are lists of 8-bit characters, read as the code units \<open>0..255\<close>.
  \<open>String.prototype.trim\<close> removes white space and line terminators at both ends; in this
  range these are TAB, LF, VT, FF, CR, SP and NBSP.  \<open>toLowerCase\<close> maps \<open>A..Z\<close> and
  the capital letters \<open>U+00C0..U+00DE\<close> (all of that range but the multiplication sign
  \<open>U+00D7\<close>) to the small letter 32 code units further on, and leaves every other code
  unit of the range as it is.
\<close>

definition isWhiteSpace :: "char \<Rightarrow> bool" where
  "isWhiteSpace c = ((of_char c :: nat) \<in> {9, 10, 11, 12, 13, 32, 160})"

definition trim :: "string \<Rightarrow> string" where
  "trim s = rev (dropWhile isWhiteSpace (rev (dropWhile isWhiteSpace s)))"

definition endsWith :: "string \<Rightarrow> string \<Rightarrow> bool" where
  "endsWith s t = (length t \<le> length s \<and> drop (length s - length t) s = t)"

fun includes_str :: "string \<Rightarrow> string \<Rightarrow> bool" where
  "includes_str [] t = (t = [])"
| "includes_str (c # s) t = (take (length t) (c # s) = t \<or> includes_str s t)"

definition toLowerChar :: "char \<Rightarrow> char" where
  "toLowerChar c =
     (let n = (of_char c :: nat)
      in if (65 \<le> n \<and> n \<le> 90) \<or> (192 \<le> n \<and> n \<le> 222 \<and> n \<noteq> 215)
         then char_of (n + 32) else c)"

definition toLowerCase :: "string \<Rightarrow> string" where
  "toLowerCase s = map toLowerChar s"

definition charAt :: "string \<Rightarrow> nat \<Rightarrow> string" where
  "charAt s i = take 1 (drop i s)"

definition slice :: "string \<Rightarrow> nat \<Rightarrow> string" where
  "slice s i = drop i s"

definition dquote :: string where
  "dquote = [CHR 0x22]"

definition backslash :: string where
  "backslash = [CHR 0x5C]"

fun joinWith :: "string \<Rightarrow> string list \<Rightarrow> string" where
  "joinWith sep [] = []"
| "joinWith sep [x] = x"
| "joinWith sep (x # y # ys) = x @ sep @ joinWith sep (y # ys)"

text \<open>Decimal rendering of a number inside a template string.\<close>

definition digitChar :: "nat \<Rightarrow> char" where
  "digitChar d = char_of (48 + d)"

fun showNat :: "nat \<Rightarrow> string" where
  "showNat n = (if n < 10 then [digitChar n] else showNat (n div 10) @ [digitChar (n mod 10)])"

declare showNat.simps [simp del]

definition showInt :: "int \<Rightarrow> string" where
  "showInt i = (if i < 0 then ''-'' @ showNat (nat (- i)) else showNat (nat i))"

section \<open>Auto-split: from bookmarks to chunks\<close>

text \<open>\<open>Array.prototype.findIndex\<close>: the first index whose element satisfies the
  predicate, \<open>-1\<close> when there is none.\<close>

fun findIndex :: "('a \<Rightarrow> bool) \<Rightarrow> 'a list \<Rightarrow> int" where
  "findIndex P [] = - 1"
| "findIndex P (x # xs) =
     (if P x then 0 else (let r = findIndex P xs in if r < 0 then - 1 else r + 1))"

text \<open>
  \<^verbatim>\<open>
  const uniqueBookmarks = bookmarks
      .sort((a, b) => a.page - b.page)
      .filter((bookmark, index, self) =>
          index === self.findIndex(b => b.page === bookmark.page));
  \<close>
  \<open>Array.prototype.sort\<close> is stable, as is \<open>sort_key\<close>.
\<close>

definition uniqueBookmarks :: "bookmark list \<Rightarrow> bookmark list" where
  "uniqueBookmarks bookmarks =
     (let self = sort_key page bookmarks
      in map snd (filter (\<lambda>(index, bookmark).
                            int index = findIndex (\<lambda>b. page b = page bookmark) self)
                         (enumerate 0 self)))"

text \<open>
  \<^verbatim>\<open>
  uniqueBookmarks.forEach((bookmark, i) => {
      const startPage = bookmark.page;
      const endPage = (i + 1 < uniqueBookmarks.length)
          ? uniqueBookmarks[i + 1].page - 1 : pdfDoc.numPages;
      if (startPage <= endPage)
          initialChunks.push({ startPage, endPage, contextTitle: bookmark.title });
  });
  \<close>
\<close>

definition sectionOf :: "bookmark list \<Rightarrow> int \<Rightarrow> nat \<Rightarrow> page_range" where
  "sectionOf ub numPages i =
     \<lparr> startPage = page (ub ! i),
       endPage = (if i + 1 < length ub then page (ub ! (i + 1)) - 1 else numPages),
       contextTitle = Some (title (ub ! i)) \<rparr>"

definition initialChunks :: "bookmark list \<Rightarrow> int \<Rightarrow> page_range list" where
  "initialChunks ub numPages =
     filter (\<lambda>c. startPage c \<le> endPage c) (map (sectionOf ub numPages) [0..<length ub])"

text \<open>
  \<^verbatim>\<open>
  const MAX_CHUNK_PAGES = 4;
  initialChunks.forEach(chunk => {
      let currentStart = chunk.startPage;
      while (currentStart <= chunk.endPage) {
          const currentEnd = Math.min(currentStart + MAX_CHUNK_PAGES - 1, chunk.endPage);
          finalChunks.push({ startPage: currentStart, endPage: currentEnd,
                             contextTitle: chunk.contextTitle });
          currentStart = currentEnd + 1;
      }
  });
  \<close>
\<close>

definition MAX_CHUNK_PAGES :: int where
  "MAX_CHUNK_PAGES = 4"

function subSplit :: "int \<Rightarrow> page_range \<Rightarrow> page_range list" where
  "subSplit currentStart c =
     (if currentStart \<le> endPage c
      then (let currentEnd = min (currentStart + MAX_CHUNK_PAGES - 1) (endPage c)
            in \<lparr> startPage = currentStart, endPage = currentEnd,
                 contextTitle = contextTitle c \<rparr> # subSplit (currentEnd + 1) c)
      else [])"
  by pat_completeness auto
termination
  by (relation "measure (\<lambda>(s, c). nat (endPage c + 1 - s))")
     (auto simp: MAX_CHUNK_PAGES_def)

declare subSplit.simps [simp del]

definition finalChunks :: "page_range list \<Rightarrow> page_range list" where
  "finalChunks ics = concat (map (\<lambda>c. subSplit (startPage c) c) ics)"

text \<open>
  \<^verbatim>\<open>
  const newChunksWithId = finalChunks.map((chunk, index) => ({ ...chunk, id: index + 1 }));
  \<close>
\<close>

definition newChunksWithId :: "page_range list \<Rightarrow> chunk list" where
  "newChunksWithId fcs =
     map (\<lambda>(index, c). \<lparr> startPage = startPage c, endPage = endPage c,
                           contextTitle = contextTitle c, id_chunk = index + 1 \<rparr>)
         (enumerate 0 fcs)"

text \<open>The chunk list computed from the resolved bookmarks of a document with
  \<open>numPages\<close> pages (the \<open>try\<close> block after the outline walk).\<close>

definition splitBookmarks :: "bookmark list \<Rightarrow> int \<Rightarrow> chunk list" where
  "splitBookmarks bookmarks numPages =
     newChunksWithId (finalChunks (initialChunks (uniqueBookmarks bookmarks) numPages))"

section \<open>JSON values\<close>

text \<open>The values \<open>JSON.parse\<close> produces and \<open>JSON.stringify\<close> consumes.  Numbers are
  restricted to integers, the only ones the code under study compares or prints.  An
  object is the list of its members in insertion order.\<close>

datatype json =
    JNull
  | JBool bool
  | JNumber int
  | JString string
  | JArray "json list"
  | JObject "(string \<times> json) list"

definition hexDigit :: "nat \<Rightarrow> char" where
  "hexDigit d = ''0123456789abcdef'' ! d"

text \<open>\<open>QuoteJSONString\<close> of ECMA-262: the double quote and the backslash are escaped,
  the control characters below \<open>0x20\<close> become \<open>\b \t \n \f \r\<close> or \<open>\u00XX\<close>.\<close>

definition quoteChar :: "char \<Rightarrow> string" where
  "quoteChar c =
     (let n = (of_char c :: nat) in
      if n = 8 then backslash @ ''b''
      else if n = 9 then backslash @ ''t''
      else if n = 10 then backslash @ ''n''
      else if n = 12 then backslash @ ''f''
      else if n = 13 then backslash @ ''r''
      else if n = 34 then backslash @ dquote
      else if n = 92 then backslash @ backslash
      else if n < 32 then backslash @ ''u00'' @ [hexDigit (n div 16), hexDigit (n mod 16)]
      else [c])"

definition quoteJSONString :: "string \<Rightarrow> string" where
  "quoteJSONString s = dquote @ concat (map quoteChar s) @ dquote"

fun stringify :: "json \<Rightarrow> string" where
  "stringify JNull = ''null''"
| "stringify (JBool b) = (if b then ''true'' else ''false'')"
| "stringify (JNumber n) = showInt n"
| "stringify (JString s) = quoteJSONString s"
| "stringify (JArray xs) = ''['' @ joinWith '','' (map stringify xs) @ '']''"
| "stringify (JObject kvs) =
     ''{'' @ joinWith '','' (map (\<lambda>(k, v). quoteJSONString k @ '':'' @ stringify v) kvs) @ ''}''"

section \<open>The generation service: \<open>generateQuestionsAndAnswers\<close>\<close>

text \<open>
  What the \<open>catch\<close> block reads of a caught error:
  \<^verbatim>\<open>error?.message\<close>, \<^verbatim>\<open>error?.status\<close>, \<^verbatim>\<open>error?.error?.code\<close> and
  \<^verbatim>\<open>error?.error?.status\<close>; \<open>None\<close> stands for \<open>undefined\<close>.
\<close>

record api_error =
  message :: "string option"
  status :: "json option"
  error_code :: "json option"
  error_status :: "json option"

text \<open>\<^verbatim>\<open>new Error(msg)\<close>: a message and nothing else.\<close>

definition newError :: "string \<Rightarrow> api_error" where
  "newError msg = \<lparr> message = Some msg, status = None, error_code = None, error_status = None \<rparr>"

text \<open>
  One attempt of the loop body, as far as the outside world decides it: the awaited call
  (or reading \<open>response.text\<close>) throws, or \<open>JSON.parse\<close> throws with some message, or
  \<open>JSON.parse\<close> returns a value.
\<close>

datatype attempt_outcome =
    CallThrows api_error
  | ParseThrows string
  | Parsed json

text \<open>
  \<^verbatim>\<open>
  Array.isArray(parsedData) && (parsedData.length === 0 || parsedData.every(item =>
      typeof item === 'object' && item !== null && 'question' in item && 'answer' in item))
  \<close>
  \<open>typeof\<close> is \<open>'object'\<close> for objects, arrays and \<open>null\<close>; an array parsed from JSON has
  no property named \<open>question\<close> or \<open>answer\<close>.
\<close>

definition typeofObject :: "json \<Rightarrow> bool" where
  "typeofObject item = (case item of JObject _ \<Rightarrow> True | JArray _ \<Rightarrow> True | JNull \<Rightarrow> True | _ \<Rightarrow> False)"

definition hasProperty :: "string \<Rightarrow> json \<Rightarrow> bool" where
  "hasProperty k item = (case item of JObject kvs \<Rightarrow> k \<in> set (map fst kvs) | _ \<Rightarrow> False)"

definition matchesFormat :: "json \<Rightarrow> bool" where
  "matchesFormat parsedData =
     (case parsedData of
        JArray items \<Rightarrow>
          length items = 0 \<or>
          list_all (\<lambda>item. typeofObject item \<and> item \<noteq> JNull \<and>
                           hasProperty ''question'' item \<and> hasProperty ''answer'' item) items
      | _ \<Rightarrow> False)"

definition arrayItems :: "json \<Rightarrow> json list" where
  "arrayItems parsedData = (case parsedData of JArray items \<Rightarrow> items | _ \<Rightarrow> [])"

text \<open>
  The outer \<open>try\<close> block: it returns \<open>parsedData\<close> or throws.  The format error thrown
  inside the inner \<open>try\<close> is caught by the inner \<open>catch\<close> and wrapped like a parse error.
  \<^verbatim>\<open>
  try {
      const parsedData = JSON.parse(jsonStr);
      if (Array.isArray(parsedData) && (...)) { return parsedData; }
      else { throw new Error("Generated JSON does not match the required Q&A format."); }
  } catch (parseError: any) {
      throw new Error(`Failed to parse JSON response: ${parseError.message}`);
  }
  \<close>
\<close>

definition attemptResult :: "attempt_outcome \<Rightarrow> api_error + json list" where
  "attemptResult outcome =
     (case outcome of
        CallThrows error \<Rightarrow> Inl error
      | ParseThrows parseErrorMessage \<Rightarrow>
          Inl (newError (''Failed to parse JSON response: '' @ parseErrorMessage))
      | Parsed parsedData \<Rightarrow>
          if matchesFormat parsedData then Inr (arrayItems parsedData)
          else Inl (newError (''Failed to parse JSON response: '' @
                              ''Generated JSON does not match the required Q&A format.'')))"

definition MAX_RETRIES :: nat where
  "MAX_RETRIES = 3"

text \<open>
  \<^verbatim>\<open>
  const errorMessage = error?.message?.toLowerCase() || '';
  const errorStatus = error?.status;
  const errorCode = error?.error?.code;
  if (errorStatus === 'PERMISSION_DENIED' || errorMessage.includes('region not supported')
      || errorMessage.includes('api key not valid')) { throw new Error("API access denied. ...") }
  if (errorCode === 403 && errorMessage.includes('user location is not supported')) {
      throw new Error("API access denied: User location is not supported for this model."); }
  \<close>
\<close>

definition errorMessageLower :: "api_error \<Rightarrow> string" where
  "errorMessageLower error = (case message error of Some m \<Rightarrow> toLowerCase m | None \<Rightarrow> [])"

definition isPermissionDenied :: "api_error \<Rightarrow> bool" where
  "isPermissionDenied error =
     (status error = Some (JString ''PERMISSION_DENIED'') \<or>
      includes_str (errorMessageLower error) ''region not supported'' \<or>
      includes_str (errorMessageLower error) ''api key not valid'')"

definition isLocationUnsupported :: "api_error \<Rightarrow> bool" where
  "isLocationUnsupported error =
     (error_code error = Some (JNumber 403) \<and>
      includes_str (errorMessageLower error) ''user location is not supported'')"

definition ACCESS_DENIED_MESSAGE :: string where
  "ACCESS_DENIED_MESSAGE =
     ''API access denied. This may be due to regional restrictions or an invalid/disabled API key. Please check your API key and that you are in a supported region.''"

definition LOCATION_MESSAGE :: string where
  "LOCATION_MESSAGE = ''API access denied: User location is not supported for this model.''"

definition RATE_LIMIT_MESSAGE :: string where
  "RATE_LIMIT_MESSAGE =
     ''Rate limit exceeded. The API is receiving too many requests. Please wait a moment before trying again or reduce the request frequency.''"

definition FAILED_MESSAGE :: string where
  "FAILED_MESSAGE =
     ''Failed to generate Q&A pairs after '' @ showNat MAX_RETRIES @
     '' attempts. The model may be unavailable or the content could not be processed. Check the console for details.''"

text \<open>
  \<^verbatim>\<open>
  const lastErrorStatus = lastError?.status;
  const lastErrorBodyStatus = lastError?.error?.status;
  if (lastErrorStatus === 429 || lastErrorBodyStatus === 'RESOURCE_EXHAUSTED') ...
  \<close>
\<close>

definition isRateLimited :: "api_error option \<Rightarrow> bool" where
  "isRateLimited lastError =
     (case lastError of
        None \<Rightarrow> False
      | Some e \<Rightarrow> status e = Some (JNumber 429) \<or>
                  error_status e = Some (JString ''RESOURCE_EXHAUSTED''))"

text \<open>The observable effects of the service and of the batch run, in the order they
  happen: a request to the model (with the attempt number), a \<open>sleep(ms)\<close>, a call of
  \<open>generateQaForChunk\<close> (with the chunk id) and a call of \<open>setGenerationProgress\<close>.\<close>

datatype effect =
    Request nat
  | Sleep nat
  | GenerateQa nat
  | SetProgress nat nat

definition after :: "effect list \<Rightarrow> 'a \<times> effect list \<Rightarrow> 'a \<times> effect list" where
  "after es r = (fst r, es @ snd r)"

text \<open>
  \<^verbatim>\<open>
  for (let attempt = 1; attempt <= MAX_RETRIES; attempt++) {
    try { ... return parsedData; ... }
    catch (error: any) {
        lastError = error;
        ... the two non-retriable classes throw ...
        if (attempt < MAX_RETRIES) {
            const delay = 1500 * Math.pow(2, attempt - 1); // Exponential backoff
            await sleep(delay);
        }
    }
  }
  ... classification of lastError, throw ...
  \<close>
  \<open>api attempt\<close> is the outcome of the request of that attempt.  The result is the
  returned list (\<open>Inr\<close>) or the message of the thrown error (\<open>Inl\<close>).
\<close>

function retryLoop ::
  "(nat \<Rightarrow> attempt_outcome) \<Rightarrow> nat \<Rightarrow> api_error option \<Rightarrow> (string + json list) \<times> effect list"
where
  "retryLoop api attempt lastError =
     (if attempt \<le> MAX_RETRIES then
        (case attemptResult (api attempt) of
           Inr parsedData \<Rightarrow> (Inr parsedData, [Request attempt])
         | Inl error \<Rightarrow>
             if isPermissionDenied error then (Inl ACCESS_DENIED_MESSAGE, [Request attempt])
             else if isLocationUnsupported error then (Inl LOCATION_MESSAGE, [Request attempt])
             else if attempt < MAX_RETRIES
             then (let delay = 1500 * 2 ^ (attempt - 1)
                   in after [Request attempt, Sleep delay]
                        (retryLoop api (attempt + 1) (Some error)))
             else after [Request attempt] (retryLoop api (attempt + 1) (Some error)))
      else if isRateLimited lastError then (Inl RATE_LIMIT_MESSAGE, [])
      else (Inl FAILED_MESSAGE, []))"
  by pat_completeness auto
termination
  by (relation "measure (\<lambda>(api, attempt, lastError). MAX_RETRIES + 1 - attempt)") auto

declare retryLoop.simps [simp del]

text \<open>
  \<^verbatim>\<open>
  if (!text.trim() && (!images || images.length === 0)) { return []; }
  \<close>
\<close>

definition generateQuestionsAndAnswers ::
  "(nat \<Rightarrow> attempt_outcome) \<Rightarrow> string \<Rightarrow> string list option \<Rightarrow> (string + json list) \<times> effect list"
where
  "generateQuestionsAndAnswers api text_arg images =
     (if trim text_arg = [] \<and> (images = None \<or> images = Some [])
      then (Inr [], [])
      else retryLoop api 1 None)"

section \<open>The normalizer inside \<open>generateQaForChunk\<close>\<close>

text \<open>A string (or absent) value is falsy when it is undefined or empty.\<close>

definition falsy :: "string option \<Rightarrow> bool" where
  "falsy v = (case v of None \<Rightarrow> True | Some s \<Rightarrow> s = [])"

text \<open>\<^verbatim>\<open>file?.name || 'this document'\<close>, where \<open>file\<close> is the name of the uploaded file
  (\<open>None\<close> when there is no file).\<close>

definition documentName :: "string option \<Rightarrow> string" where
  "documentName file_name = (if falsy file_name then ''this document'' else the file_name)"

text \<open>
  \<^verbatim>\<open>
  const contextPrefix = chunk.contextTitle
    ? `In the section "${chunk.contextTitle}" of the document "${file?.name || 'this document'}", `
    : `In the document "${file?.name || 'this document'}", `;
  \<close>
\<close>

definition contextPrefix :: "string option \<Rightarrow> string option \<Rightarrow> string" where
  "contextPrefix ctxTitle file_name =
     (if \<not> falsy ctxTitle
      then ''In the section '' @ dquote @ the ctxTitle @ dquote @ '' of the document '' @
           dquote @ documentName file_name @ dquote @ '', ''
      else ''In the document '' @ dquote @ documentName file_name @ dquote @ '', '')"

text \<open>
  \<^verbatim>\<open>
  basePairs.map(pair => {
    if (!pair.question || !pair.answer) { return null; }
    let questionText = pair.question.trim();
    if (!questionText.endsWith('?')) { questionText += '?'; }
    const contextPrefix = ...;
    const finalQuestion = contextPrefix + questionText.charAt(0).toLowerCase() + questionText.slice(1);
    return { input_text: finalQuestion, output_text: pair.answer.trim() };
  }).filter((p): p is QAPair => p !== null);
  \<close>
\<close>

definition normalizePair :: "string option \<Rightarrow> string option \<Rightarrow> RawPair \<Rightarrow> QAPair option" where
  "normalizePair ctxTitle file_name pair =
     (if falsy (question pair) \<or> falsy (answer pair) then None
      else
        (let questionText = trim (the (question pair));
             questionText = (if \<not> endsWith questionText ''?'' then questionText @ ''?''
                             else questionText);
             finalQuestion = contextPrefix ctxTitle file_name @
                             toLowerCase (charAt questionText 0) @ slice questionText 1
         in Some \<lparr> input_text = finalQuestion, output_text = trim (the (answer pair)) \<rparr>))"

definition finalPairs :: "string option \<Rightarrow> string option \<Rightarrow> RawPair list \<Rightarrow> QAPair list" where
  "finalPairs ctxTitle file_name basePairs =
     map the (filter (\<lambda>p. p \<noteq> None) (map (normalizePair ctxTitle file_name) basePairs))"


section \<open>The document and its outline\<close>

text \<open>
  A destination of an outline item is a string (a named destination), an array whose
  first element is a page reference or something falsy (\<open>None\<close>), or anything else.
  Page references are opaque; they are numbered.
\<close>

datatype dest =
    DestName string
  | DestArray "nat option list"
  | DestOther

datatype outline_item =
  OutlineItem (item_title: string) (item_dest: dest) (item_items: "outline_item list")

text \<open>An awaited call of the document either rejects or returns.\<close>

datatype 'a awaited = Rejects | Returns 'a

text \<open>
  \<^verbatim>\<open>
  export declare class PDFDocumentProxy {
    numPages: number;
    getOutline(): Promise<any[] | null>;
    getDestination(destination: string): Promise<any[] | null>;
    getPageIndex(ref: any): Promise<number>;
  }
  \<close>
\<close>

record PDFDocumentProxy =
  numPages :: int
  getOutline :: "outline_item list option"
  getDestination :: "string \<Rightarrow> nat option list option awaited"
  getPageIndex :: "nat \<Rightarrow> int awaited"

text \<open>
  \<^verbatim>\<open>
  try {
      let dest = item.dest;
      if (typeof dest === 'string') dest = await pdfDoc.getDestination(dest);
      if (Array.isArray(dest) && dest[0]) {
          const pageIndex = await pdfDoc.getPageIndex(dest[0]);
          bookmarks.push({ title: item.title, page: pageIndex + 1 });
      }
  } catch (e) { console.warn(...); }
  if (item.items && item.items.length > 0) await processOutline(item.items);
  \<close>
\<close>

definition resolveArray :: "PDFDocumentProxy \<Rightarrow> string \<Rightarrow> nat option list \<Rightarrow> bookmark list" where
  "resolveArray pdfDoc t arr =
     (case arr of
        Some r # _ \<Rightarrow>
          (case getPageIndex pdfDoc r of
             Rejects \<Rightarrow> []
           | Returns pageIndex \<Rightarrow> [\<lparr> title = t, page = pageIndex + 1 \<rparr>])
      | _ \<Rightarrow> [])"

definition resolveItem :: "PDFDocumentProxy \<Rightarrow> string \<Rightarrow> dest \<Rightarrow> bookmark list" where
  "resolveItem pdfDoc t d =
     (case d of
        DestName n \<Rightarrow>
          (case getDestination pdfDoc n of
             Rejects \<Rightarrow> []
           | Returns None \<Rightarrow> []
           | Returns (Some arr) \<Rightarrow> resolveArray pdfDoc t arr)
      | DestArray arr \<Rightarrow> resolveArray pdfDoc t arr
      | DestOther \<Rightarrow> [])"

fun processItem :: "PDFDocumentProxy \<Rightarrow> outline_item \<Rightarrow> bookmark list" where
  "processItem pdfDoc (OutlineItem t d its) =
     resolveItem pdfDoc t d @ concat (map (processItem pdfDoc) its)"

definition processOutline :: "PDFDocumentProxy \<Rightarrow> outline_item list \<Rightarrow> bookmark list" where
  "processOutline pdfDoc its = concat (map (processItem pdfDoc) its)"

section \<open>Application state\<close>

text \<open>
  The state hooks of the \<open>App\<close> component that the operations below read or write.
  \<open>file_name\<close> is \<open>file?.name\<close>.  The QA cache is a \<^verbatim>\<open>Record<number, QAPair[]>\<close>; the
  keys of a JavaScript object that are array indices are enumerated in ascending numeric
  order, whatever the insertion order, so the cache is the list of its entries in
  ascending key order.
\<close>

type_synonym qa_cache = "(nat \<times> QAPair list) list"

record app_state =
  file_name :: "string option"
  pdfDoc :: "PDFDocumentProxy option"
  appError :: "string option"
  chunks :: "chunk list"
  nextChunkId :: nat
  selectedChunk :: "chunk option"
  isAutoSplitting :: bool
  hasOutline :: "bool option"
  qaCache :: qa_cache
  isGeneratingAll :: bool
  generationProgress :: "nat \<times> nat"

text \<open>
  The initial values of the hooks, and the state after a successful upload
  (\<open>handleFileChange\<close>): \<open>resetStateForNewFile\<close> restores the initial values, then
  \<^verbatim>\<open>
  setFile(selectedFile); ... setPdfDoc(pdf);
  const outline = await pdf.getOutline();
  setHasOutline(!!outline && outline.length > 0);
  \<close>
\<close>

definition initialState :: app_state where
  "initialState =
     \<lparr> file_name = None, pdfDoc = None, appError = None, chunks = [], nextChunkId = 1,
       selectedChunk = None, isAutoSplitting = False, hasOutline = None, qaCache = [],
       isGeneratingAll = False, generationProgress = (0, 0) \<rparr>"

definition fileLoaded :: "string \<Rightarrow> PDFDocumentProxy \<Rightarrow> app_state" where
  "fileLoaded name doc =
     initialState\<lparr> file_name := Some name, pdfDoc := Some doc,
                   hasOutline := Some (case getOutline doc of
                                         None \<Rightarrow> False
                                       | Some outline \<Rightarrow> length outline > 0) \<rparr>"

text \<open>\<^verbatim>\<open>{ ...prev, [id]: pairs }\<close>\<close>

fun cacheSet :: "nat \<Rightarrow> QAPair list \<Rightarrow> qa_cache \<Rightarrow> qa_cache" where
  "cacheSet k v [] = [(k, v)]"
| "cacheSet k v ((k', v') # rest) =
     (if k < k' then (k, v) # (k', v') # rest
      else if k = k' then (k, v) # rest
      else (k', v') # cacheSet k v rest)"

text \<open>\<^verbatim>\<open>Object.values(qaCache)\<close>\<close>

definition objectValues :: "qa_cache \<Rightarrow> QAPair list list" where
  "objectValues cache = map snd cache"

section \<open>\<open>autoSplitPdf\<close>\<close>

text \<open>The body of the \<open>try\<close> block: the new chunk list, or the message of the error
  thrown.\<close>

definition autoSplitTry :: "PDFDocumentProxy \<Rightarrow> string + chunk list" where
  "autoSplitTry doc =
     (case getOutline doc of
        None \<Rightarrow> Inl ''No outline found in the document.''
      | Some outline \<Rightarrow>
          (let bookmarks = processOutline doc outline
           in if length bookmarks = 0
              then Inl ''Failed to extract structure from outline. Please use manual splitting.''
              else Inr (splitBookmarks bookmarks (numPages doc))))"

text \<open>
  \<^verbatim>\<open>
  if (!pdfDoc || !hasOutline) return;
  setIsAutoSplitting(true);
  setAppError(null);
  try {
      ...
      setChunks(newChunksWithId);
      setNextChunkId(newChunksWithId.length + 1);
      setSelectedChunk(newChunksWithId.length > 0 ? newChunksWithId[0] : null);
      setQaCache({});
  } catch (e: any) {
      setAppError(`Auto-split error: ${e.message}`);
      setChunks([]);
      setNextChunkId(1);
      setSelectedChunk(null);
  } finally {
      setIsAutoSplitting(false);
  }
  \<close>
\<close>

definition autoSplitPdf :: "app_state \<Rightarrow> app_state" where
  "autoSplitPdf s =
     (case pdfDoc s of
        None \<Rightarrow> s
      | Some doc \<Rightarrow>
          if hasOutline s \<noteq> Some True then s
          else
            (let s1 = s\<lparr> isAutoSplitting := True, appError := None \<rparr>
             in case autoSplitTry doc of
                  Inr newChunks \<Rightarrow>
                    s1\<lparr> chunks := newChunks,
                        nextChunkId := length newChunks + 1,
                        selectedChunk := (if length newChunks > 0 then Some (newChunks ! 0) else None),
                        qaCache := [],
                        isAutoSplitting := False \<rparr>
                | Inl msg \<Rightarrow>
                    s1\<lparr> appError := Some (''Auto-split error: '' @ msg),
                        chunks := [],
                        nextChunkId := 1,
                        selectedChunk := None,
                        isAutoSplitting := False \<rparr>))"

section \<open>Manual chunks: \<open>addChunk\<close> and \<open>handleAddChunk\<close>\<close>

text \<open>
  \<^verbatim>\<open>
  const newChunk: Chunk = { id: nextChunkId, startPage: start, endPage: end, contextTitle: undefined };
  setChunks(prev => [...prev, newChunk].sort((a,b) => a.startPage - b.startPage));
  setNextChunkId(prev => prev + 1);
  setSelectedChunk(newChunk);
  \<close>
\<close>

definition addChunk :: "int \<Rightarrow> int \<Rightarrow> app_state \<Rightarrow> app_state" where
  "addChunk start end_arg s =
     (let newChunk = \<lparr> startPage = start, endPage = end_arg, contextTitle = None,
                        id_chunk = nextChunkId s \<rparr>
      in s\<lparr> chunks := sort_key startPage (chunks s @ [newChunk]),
            nextChunkId := nextChunkId s + 1,
            selectedChunk := Some newChunk \<rparr>)"

text \<open>
  The numbers the manual add computes with: a JavaScript number holding an integer, an
  infinity or \<open>NaN\<close>.  An integer becomes a number by rounding to the nearest double
  (53 significant bits, ties to even); from \<open>2^1024\<close> on the rounded magnitude is an
  infinity.  \<open>halvings m\<close> is the number of low bits a magnitude loses.
\<close>

datatype number = NaN | Finite int | PosInfinity | NegInfinity

function halvings :: "int \<Rightarrow> nat" where
  "halvings m = (if m < 2 ^ 53 then 0 else Suc (halvings (m div 2)))"
  by pat_completeness auto
termination
  by (relation "measure nat") auto

declare halvings.simps [simp del]

definition roundMagnitude :: "int \<Rightarrow> int" where
  "roundMagnitude m =
     (let e = halvings m; q = m div 2 ^ e; r = m mod 2 ^ e
      in if e = 0 then m
         else if 2 * r > 2 ^ e \<or> (2 * r = 2 ^ e \<and> odd q) then (q + 1) * 2 ^ e
         else q * 2 ^ e)"

definition fromInt :: "int \<Rightarrow> number" where
  "fromInt i =
     (let m = roundMagnitude \<bar>i\<bar>
      in if m \<ge> 2 ^ 1024 then (if i < 0 then NegInfinity else PosInfinity)
         else Finite (if i < 0 then - m else m))"

text \<open>\<open>a < b\<close>, \<open>a <= b\<close>, \<open>a > b\<close>, \<open>a + b\<close> and \<open>a - b\<close> on these numbers; every
  comparison with \<open>NaN\<close> is false, and a sum is the exact sum rounded.\<close>

fun num_lt :: "number \<Rightarrow> number \<Rightarrow> bool" where
  "num_lt (Finite a) (Finite b) = (a < b)"
| "num_lt (Finite a) PosInfinity = True"
| "num_lt NegInfinity (Finite b) = True"
| "num_lt NegInfinity PosInfinity = True"
| "num_lt _ _ = False"

definition num_le :: "number \<Rightarrow> number \<Rightarrow> bool" where
  "num_le a b = (num_lt a b \<or> (a = b \<and> a \<noteq> NaN))"

definition num_gt :: "number \<Rightarrow> number \<Rightarrow> bool" where
  "num_gt a b = num_lt b a"

fun num_neg :: "number \<Rightarrow> number" where
  "num_neg NaN = NaN"
| "num_neg (Finite a) = Finite (- a)"
| "num_neg PosInfinity = NegInfinity"
| "num_neg NegInfinity = PosInfinity"

fun num_plus :: "number \<Rightarrow> number \<Rightarrow> number" where
  "num_plus (Finite a) (Finite b) = fromInt (a + b)"
| "num_plus NaN _ = NaN"
| "num_plus _ NaN = NaN"
| "num_plus PosInfinity NegInfinity = NaN"
| "num_plus NegInfinity PosInfinity = NaN"
| "num_plus PosInfinity _ = PosInfinity"
| "num_plus _ PosInfinity = PosInfinity"
| "num_plus NegInfinity _ = NegInfinity"
| "num_plus _ NegInfinity = NegInfinity"

definition num_minus :: "number \<Rightarrow> number \<Rightarrow> number" where
  "num_minus a b = num_plus a (num_neg b)"

definition isNaN :: "number \<Rightarrow> bool" where
  "isNaN a = (a = NaN)"

text \<open>The integer a finite number holds.  It is read only where both page numbers have
  passed the tests of \<open>handleAddChunk\<close>, and there they are finite.\<close>

fun integerValue :: "number \<Rightarrow> int" where
  "integerValue (Finite a) = a"
| "integerValue _ = 0"

text \<open>
  \<open>parseInt(s, 10)\<close>: leading white space is skipped, then an optional sign, then the
  longest run of decimal digits; \<open>NaN\<close> when there is no digit.  Whatever follows the
  digits is ignored.  The result is the number nearest to the integer the digits denote.
  (ECMA-262 lets an implementation replace the digits after the 20th by zeros; the
  model rounds the exact integer.)
\<close>

definition isDigit :: "char \<Rightarrow> bool" where
  "isDigit c = (48 \<le> (of_char c :: nat) \<and> (of_char c :: nat) \<le> 57)"

definition digitsValue :: "string \<Rightarrow> int" where
  "digitsValue ds = foldl (\<lambda>acc c. 10 * acc + (int (of_char c) - 48)) 0 ds"

definition parseInt10 :: "string \<Rightarrow> number" where
  "parseInt10 str =
     (let s = dropWhile isWhiteSpace str;
          negative = (take 1 s = ''-'');
          s = (if take 1 s = ''-'' \<or> take 1 s = ''+'' then drop 1 s else s);
          ds = takeWhile isDigit s
      in if ds = [] then NaN
         else fromInt (if negative then - digitsValue ds else digitsValue ds))"

text \<open>The state of the \<open>ChunkManager\<close> component; its hooks are named \<open>startPage\<close>,
  \<open>endPage\<close> and \<open>error\<close> in the source.\<close>

record chunk_manager =
  startPage_input :: string
  endPage_input :: string
  error_input :: string

text \<open>
  \<^verbatim>\<open>
  setError('');
  const start = parseInt(startPage, 10);
  const end = parseInt(endPage, 10);
  if (isNaN(start) || isNaN(end) || start <= 0 || end <= 0) {
    setError('Page numbers must be greater than 0.'); return; }
  if (start > end) { setError('Start page cannot be greater than end page.'); return; }
  if (start > numPages || end > numPages) {
      setError(`Page number cannot be greater than ${numPages}.`); return; }
  if (end - start + 1 > 4) { setError('Chunk cannot exceed 4 pages.'); return; }
  addChunk(start, end);
  setStartPage('');
  setEndPage('');
  \<close>
  The page count \<open>numPages\<close> is an integer.
\<close>

definition handleAddChunk :: "int \<Rightarrow> chunk_manager \<times> app_state \<Rightarrow> chunk_manager \<times> app_state" where
  "handleAddChunk numPages_prop st =
     (let cm = (fst st)\<lparr> error_input := [] \<rparr>;
          app = snd st;
          start = parseInt10 (startPage_input cm);
          end_v = parseInt10 (endPage_input cm)
      in if isNaN start \<or> isNaN end_v \<or> num_le start (Finite 0) \<or> num_le end_v (Finite 0)
         then (cm\<lparr> error_input := ''Page numbers must be greater than 0.'' \<rparr>, app)
         else if num_gt start end_v
         then (cm\<lparr> error_input := ''Start page cannot be greater than end page.'' \<rparr>, app)
         else if num_gt start (Finite numPages_prop) \<or> num_gt end_v (Finite numPages_prop)
         then (cm\<lparr> error_input := ''Page number cannot be greater than '' @
                                       showInt numPages_prop @ ''.'' \<rparr>, app)
         else if num_gt (num_plus (num_minus end_v start) (Finite 1)) (Finite 4)
         then (cm\<lparr> error_input := ''Chunk cannot exceed 4 pages.'' \<rparr>, app)
         else (cm\<lparr> startPage_input := [], endPage_input := [] \<rparr>,
               addChunk (integerValue start) (integerValue end_v) app))"

section \<open>Batch generation: \<open>handleGenerateAllQa\<close>\<close>

text \<open>
  \<open>gen chunk\<close> is the outcome of \<open>await generateQaForChunk(chunk)\<close>: the message of the
  error it throws (\<open>Inl\<close>), or the normalized pairs it stores in the cache under the
  chunk's id (\<open>Inr\<close>) by \<^verbatim>\<open>setQaCache(prev => ({ ...prev, [chunk.id]: finalPairs }))\<close>.
  \<^verbatim>\<open>
  let completed = 0;
  for (const chunk of chunks) {
    try {
      await generateQaForChunk(chunk);
      completed++;
      setGenerationProgress({ current: completed, total: chunks.length });
      if (completed < chunks.length) { await sleep(5000); }
    } catch (error: any) {
      setAppError(`Error on chunk #${chunk.id}: ${error.message}. Halting process.`);
      setIsGeneratingAll(false);
      return; // Stop the entire process on the first failure
    }
  }
  setIsGeneratingAll(false);
  \<close>
\<close>

fun generateLoop ::
  "(chunk \<Rightarrow> string + QAPair list) \<Rightarrow> nat \<Rightarrow> nat \<Rightarrow> chunk list \<Rightarrow> app_state
     \<Rightarrow> app_state \<times> effect list"
where
  "generateLoop gen total_chunks completed [] s = (s\<lparr> isGeneratingAll := False \<rparr>, [])"
| "generateLoop gen total_chunks completed (c # rest) s =
     (case gen c of
        Inl error_message \<Rightarrow>
          (s\<lparr> appError := Some (''Error on chunk #'' @ showNat (id_chunk c) @ '': '' @
                                 error_message @ ''. Halting process.''),
              isGeneratingAll := False \<rparr>,
           [GenerateQa (id_chunk c)])
      | Inr pairs \<Rightarrow>
          (let s1 = s\<lparr> qaCache := cacheSet (id_chunk c) pairs (qaCache s) \<rparr>;
               completed1 = completed + 1;
               s2 = s1\<lparr> generationProgress := (completed1, total_chunks) \<rparr>
           in if completed1 < total_chunks
              then after [GenerateQa (id_chunk c), SetProgress completed1 total_chunks, Sleep 5000]
                     (generateLoop gen total_chunks completed1 rest s2)
              else after [GenerateQa (id_chunk c), SetProgress completed1 total_chunks]
                     (generateLoop gen total_chunks completed1 rest s2)))"

text \<open>
  \<^verbatim>\<open>
  if (chunks.length === 0) return;
  setIsGeneratingAll(true);
  setAppError(null);
  setGenerationProgress({ current: 0, total: chunks.length });
  \<close>
\<close>

definition handleGenerateAllQa ::
  "(chunk \<Rightarrow> string + QAPair list) \<Rightarrow> app_state \<Rightarrow> app_state \<times> effect list"
where
  "handleGenerateAllQa gen s =
     (if length (chunks s) = 0 then (s, [])
      else
        (let total_chunks = length (chunks s);
             s0 = s\<lparr> isGeneratingAll := True, appError := None,
                     generationProgress := (0, total_chunks) \<rparr>
         in after [SetProgress 0 total_chunks] (generateLoop gen total_chunks 0 (chunks s) s0)))"

section \<open>Export: \<open>handleSaveAllQa\<close>\<close>

text \<open>
  \<^verbatim>\<open>
  const allPairs = Object.values(qaCache).flat();
  if (allPairs.length === 0) {
      setAppError("No Q&A pairs have been generated to save."); return; }
  const jsonLines = allPairs.map(pair => {
      const lineObject = { messages: [ { role: 'user', content: pair.input_text },
                                       { role: 'model', content: pair.output_text } ] };
      return JSON.stringify(lineObject);
  }).join('\n');
  const blob = new Blob([jsonLines], { type: 'application/json' });
  ... a.download = 'qa_dataset.json'; a.click(); ...
  \<close>
\<close>

record download =
  download_name :: string
  download_type :: string
  download_content :: string

definition lineObject :: "QAPair \<Rightarrow> json" where
  "lineObject pair =
     JObject [(''messages'',
       JArray [JObject [(''role'', JString ''user''), (''content'', JString (input_text pair))],
               JObject [(''role'', JString ''model''), (''content'', JString (output_text pair))]])]"

definition jsonLines :: "QAPair list \<Rightarrow> string" where
  "jsonLines allPairs = joinWith [CHR 0x0A] (map (\<lambda>pair. stringify (lineObject pair)) allPairs)"

definition handleSaveAllQa :: "app_state \<Rightarrow> app_state \<times> download option" where
  "handleSaveAllQa s =
     (let allPairs = concat (objectValues (qaCache s))
      in if length allPairs = 0
         then (s\<lparr> appError := Some ''No Q&A pairs have been generated to save.'' \<rparr>, None)
         else (s, Some \<lparr> download_name = ''qa_dataset.json'',
                          download_type = ''application/json'',
                          download_content = jsonLines allPairs \<rparr>))"



section \<open>Notions used in the statements\<close>

text \<open>Keeping, for every key, the first element that carries it.\<close>

fun firstByKey :: "('a \<Rightarrow> 'k) \<Rightarrow> 'k set \<Rightarrow> 'a list \<Rightarrow> 'a list" where
  "firstByKey f seen [] = []"
| "firstByKey f seen (x # xs) =
     (if f x \<in> seen then firstByKey f seen xs else x # firstByKey f (insert (f x) seen) xs)"

text \<open>\<open>covers a cs b\<close>: the ranges of \<open>cs\<close>, in order, are non-empty, each starts right
  after the previous one ends, the first starts at \<open>a\<close> and the last ends at \<open>b\<close>.\<close>

fun covers :: "int \<Rightarrow> 'a page_range_scheme list \<Rightarrow> int \<Rightarrow> bool" where
  "covers a [] b = (a = b + 1)"
| "covers a (c # cs) b = (startPage c = a \<and> a \<le> endPage c \<and> covers (endPage c + 1) cs b)"





text \<open>The wording of the claims that the code does not follow, for comparison with the
  code: a member that is a non-empty string; the cached pairs taken chunk by chunk in
  the order of the chunk list.\<close>

definition nonEmptyStringField :: "string \<Rightarrow> json \<Rightarrow> bool" where
  "nonEmptyStringField k item =
     (case item of
        JObject kvs \<Rightarrow> (case map_of kvs k of Some (JString s) \<Rightarrow> s \<noteq> [] | _ \<Rightarrow> False)
      | _ \<Rightarrow> False)"

definition pairsInChunkListOrder :: "app_state \<Rightarrow> QAPair list" where
  "pairsInChunkListOrder s =
     concat (map (\<lambda>c. case map_of (qaCache s) (id_chunk c) of Some ps \<Rightarrow> ps | None \<Rightarrow> [])
                 (chunks s))"

text \<open>A string without white space at either end.\<close>

definition trimmed :: "string \<Rightarrow> bool" where
  "trimmed s = (s = [] \<or> (\<not> isWhiteSpace (hd s) \<and> \<not> isWhiteSpace (last s)))"

text \<open>The cache after the chunks \<open>ds\<close> were generated in this order, and the
  message that names a failing chunk.\<close>

definition cacheAfter :: "(chunk \<Rightarrow> string + QAPair list) \<Rightarrow> chunk list \<Rightarrow> qa_cache \<Rightarrow> qa_cache" where
  "cacheAfter gen ds cache =
     foldl (\<lambda>cache x. cacheSet (id_chunk x) (projr (gen x)) cache) cache ds"

definition haltMessage :: "chunk \<Rightarrow> string \<Rightarrow> string" where
  "haltMessage c msg =
     ''Error on chunk #'' @ showNat (id_chunk c) @ '': '' @ msg @ ''. Halting process.''"


text \<open>The chunk ids for which the batch run called \<open>generateQaForChunk\<close>, in order.\<close>

definition generatedIds :: "effect list \<Rightarrow> nat list" where
  "generatedIds es = concat (map (\<lambda>e. case e of GenerateQa i \<Rightarrow> [i] | _ \<Rightarrow> []) es)"

text \<open>The requests the manual add refuses, on the numbers \<open>start\<close> and \<open>end\<close> that
  \<open>parseInt\<close> returns and the page count \<open>n\<close>.\<close>

definition rejected :: "int \<Rightarrow> number \<Rightarrow> number \<Rightarrow> bool" where
  "rejected n start end_v =
     (case start of
        Finite a \<Rightarrow>
          (case end_v of
             Finite b \<Rightarrow> a \<le> 0 \<or> b \<le> 0 \<or> a > b \<or> a > n \<or> b > n \<or> b - a + 1 > 4
           | _ \<Rightarrow> True)
      | _ \<Rightarrow> True)"

text \<open>The cache after a sequence of writes \<open>(chunk id, pairs)\<close>, starting from the empty
  cache, and the text of one exported line.\<close>

definition cacheOf :: "(nat \<times> QAPair list) list \<Rightarrow> qa_cache" where
  "cacheOf writes = foldl (\<lambda>cache w. cacheSet (fst w) (snd w) cache) [] writes"

definition exportLine :: "QAPair \<Rightarrow> string" where
  "exportLine pair =
     ''{'' @ dquote @ ''messages'' @ dquote @ '':[{'' @
       dquote @ ''role'' @ dquote @ '':'' @ dquote @ ''user'' @ dquote @ '','' @
       dquote @ ''content'' @ dquote @ '':'' @ quoteJSONString (input_text pair) @ ''},{'' @
       dquote @ ''role'' @ dquote @ '':'' @ dquote @ ''model'' @ dquote @ '','' @
       dquote @ ''content'' @ dquote @ '':'' @ quoteJSONString (output_text pair) @ ''}]}''"


chapter \<open>Verification\<close>

section \<open>Auto-split (claim C1)\<close>

subsection \<open>Sorting and deduplication\<close>

lemma findIndex_ge: "- 1 \<le> findIndex P xs"
  by (induction xs) (auto simp: Let_def)

lemma findIndex_neg_iff: "findIndex P xs < 0 \<longleftrightarrow> (\<forall>x\<in>set xs. \<not> P x)"
  by (induction xs) (use findIndex_ge in \<open>auto simp: Let_def\<close>)

lemma findIndex_append_hit:
  "findIndex P (ps @ x # xs) = int (length ps) \<longleftrightarrow> (\<forall>p\<in>set ps. \<not> P p) \<and> P x"
proof (induction ps)
  case Nil
  show ?case using findIndex_ge [of P xs] by (auto simp: Let_def)
next
  case (Cons p ps)
  show ?case
  proof (cases "P p")
    case True
    then show ?thesis by simp
  next
    case False
    have "findIndex P (ps @ x # xs) < 0 \<Longrightarrow> \<not> P x"
      by (simp add: findIndex_neg_iff)
    with False Cons show ?thesis
      by (auto simp: Let_def)
  qed
qed

lemma filter_findIndex_firstByKey:
  "map snd (filter (\<lambda>(i, b). int i = findIndex (\<lambda>x. f x = f b) (ps @ xs))
                   (enumerate (length ps) xs))
   = firstByKey f (f ` set ps) xs"
proof (induction xs arbitrary: ps)
  case Nil
  show ?case by simp
next
  case (Cons x xs)
  have hit: "(int (length ps) = findIndex (\<lambda>y. f y = f x) (ps @ x # xs)) \<longleftrightarrow> f x \<notin> f ` set ps"
  proof -
    have "(\<forall>p\<in>set ps. f p \<noteq> f x) \<longleftrightarrow> f x \<notin> f ` set ps" by (metis imageE imageI)
    with findIndex_append_hit [of "\<lambda>y. f y = f x" ps x xs] show ?thesis by metis
  qed
  have IH: "map snd (filter (\<lambda>(i, b). int i = findIndex (\<lambda>x. f x = f b) (ps @ x # xs))
                   (enumerate (Suc (length ps)) xs))
            = firstByKey f (insert (f x) (f ` set ps)) xs"
    using Cons [of "ps @ [x]"] by simp
  show ?case
  proof (cases "f x \<in> f ` set ps")
    case True
    then have "insert (f x) (f ` set ps) = f ` set ps" by auto
    with True hit IH show ?thesis by simp
  next
    case False
    with hit IH show ?thesis by simp
  qed
qed

lemma uniqueBookmarks_firstByKey:
  "uniqueBookmarks bs = firstByKey page {} (sort_key page bs)"
  using filter_findIndex_firstByKey [of page "[]" "sort_key page bs"]
  by (simp add: uniqueBookmarks_def Let_def)

lemma set_firstByKey: "set (firstByKey f seen xs) \<subseteq> {x \<in> set xs. f x \<notin> seen}"
  by (induction xs arbitrary: seen) (auto split: if_splits)

lemma image_firstByKey: "f ` set (firstByKey f seen xs) = f ` set xs - seen"
proof (induction xs arbitrary: seen)
  case Nil
  show ?case by simp
next
  case (Cons x xs)
  show ?case using Cons [of seen] Cons [of "insert (f x) seen"] by auto
qed

lemma firstByKey_strict:
  fixes f :: "'a \<Rightarrow> int"
  shows "sorted (map f xs) \<Longrightarrow> sorted_wrt (<) (map f (firstByKey f seen xs))"
proof (induction xs arbitrary: seen)
  case Nil
  show ?case by simp
next
  case (Cons x xs)
  have "f x < f y" if "y \<in> set (firstByKey f (insert (f x) seen) xs)" for y
  proof -
    from that set_firstByKey [of f "insert (f x) seen" xs]
    have "y \<in> set xs" "f y \<noteq> f x" by auto
    with Cons.prems show ?thesis by fastforce
  qed
  with Cons show ?case by (auto simp: sorted_wrt_map)
qed

lemma firstByKey_find:
  "u \<in> set (firstByKey f seen xs) \<Longrightarrow> find (\<lambda>b. f b = f u) xs = Some u"
proof (induction xs arbitrary: seen)
  case Nil
  then show ?case by simp
next
  case (Cons x xs)
  show ?case
  proof (cases "f x \<in> seen")
    case True
    with Cons.prems have u: "u \<in> set (firstByKey f seen xs)" by simp
    with set_firstByKey [of f seen xs] have "f u \<notin> seen" by auto
    with True have "f x \<noteq> f u" by auto
    with Cons.IH [OF u] show ?thesis by simp
  next
    case False
    with Cons.prems have "u = x \<or> u \<in> set (firstByKey f (insert (f x) seen) xs)" by auto
    then show ?thesis
    proof
      assume "u = x" then show ?thesis by simp
    next
      assume u: "u \<in> set (firstByKey f (insert (f x) seen) xs)"
      with set_firstByKey [of f "insert (f x) seen" xs] have "f u \<noteq> f x" by auto
      with Cons.IH [OF u] show ?thesis by simp
    qed
  qed
qed

lemma find_sort_key: "find (\<lambda>b. f b = k) (sort_key f xs) = find (\<lambda>b. f b = k) xs"
proof -
  have "find P ys = (case filter P ys of [] \<Rightarrow> None | y # _ \<Rightarrow> Some y)" for P and ys :: "'a list"
    by (induction ys) auto
  then show ?thesis by (simp add: sort_key_stable)
qed

lemma uniqueBookmarks_strict: "sorted_wrt (<) (map page (uniqueBookmarks bs))"
  by (simp add: uniqueBookmarks_firstByKey firstByKey_strict)

lemma uniqueBookmarks_pages: "page ` set (uniqueBookmarks bs) = page ` set bs"
  by (simp add: uniqueBookmarks_firstByKey image_firstByKey)

lemma uniqueBookmarks_first:
  "u \<in> set (uniqueBookmarks bs) \<Longrightarrow> find (\<lambda>b. page b = page u) bs = Some u"
  using firstByKey_find [of u page "{}" "sort_key page bs"]
  by (simp add: uniqueBookmarks_firstByKey find_sort_key)

subsection \<open>Greedy sub-splitting\<close>

lemma covers_append: "covers a xs m \<Longrightarrow> covers (m + 1) ys b \<Longrightarrow> covers a (xs @ ys) b"
  by (induction xs arbitrary: a) auto

lemma subSplit_covers: "s \<le> endPage c + 1 \<Longrightarrow> covers s (subSplit s c) (endPage c)"
proof (induction s c rule: subSplit.induct)
  case (1 s c)
  show ?case
  proof (cases "s \<le> endPage c")
    case True
    with "1.IH" [OF True refl] show ?thesis
      by (subst subSplit.simps) (simp add: Let_def MAX_CHUNK_PAGES_def)
  next
    case False
    with "1.prems" show ?thesis by (subst subSplit.simps) simp
  qed
qed

lemma subSplit_elem:
  "x \<in> set (subSplit s c) \<Longrightarrow>
     s \<le> startPage x \<and> startPage x \<le> endPage x \<and> endPage x \<le> endPage c \<and>
     endPage x - startPage x + 1 \<le> 4 \<and>
     (endPage x - startPage x + 1 = 4 \<or> endPage x = endPage c) \<and>
     contextTitle x = contextTitle c"
proof (induction s c rule: subSplit.induct)
  case (1 s c)
  show ?case
  proof (cases "s \<le> endPage c")
    case True
    let ?e = "min (s + MAX_CHUNK_PAGES - 1) (endPage c)"
    from "1.prems" True
    have "x = \<lparr> startPage = s, endPage = ?e, contextTitle = contextTitle c \<rparr>
          \<or> x \<in> set (subSplit (?e + 1) c)"
      by (subst (asm) subSplit.simps) (simp add: Let_def)
    then show ?thesis
    proof
      assume "x = \<lparr> startPage = s, endPage = ?e, contextTitle = contextTitle c \<rparr>"
      with True show ?thesis by (auto simp: MAX_CHUNK_PAGES_def)
    next
      assume "x \<in> set (subSplit (?e + 1) c)"
      from "1.IH" [OF True refl this] True show ?thesis
        by (auto simp: MAX_CHUNK_PAGES_def)
    qed
  next
    case False
    with "1.prems" show ?thesis by (subst (asm) subSplit.simps) simp
  qed
qed

lemma subSplit_nonempty: "s \<le> endPage c \<Longrightarrow> subSplit s c \<noteq> []"
  by (subst subSplit.simps) (simp add: Let_def)

lemma upt_Suc_shift: "[0..<Suc m] = 0 # map Suc [0..<m]"
  by (simp only: map_Suc_upt) (simp add: upt_conv_Cons del: upt_Suc)

lemma subSplit_closed:
  "s \<le> endPage c + 1 \<Longrightarrow>
   subSplit s c =
     map (\<lambda>j. \<lparr> startPage = s + 4 * int j, endPage = min (s + 4 * int j + 3) (endPage c),
                 contextTitle = contextTitle c \<rparr>)
         [0..<nat ((endPage c - s + 4) div 4)]"
proof (induction s c rule: subSplit.induct)
  case (1 s c)
  show ?case
  proof (cases "s \<le> endPage c")
    case False
    with "1.prems" have "s = endPage c + 1" by simp
    then show ?thesis by (subst subSplit.simps) simp
  next
    case True
    let ?e = "min (s + MAX_CHUNK_PAGES - 1) (endPage c)"
    let ?g = "\<lambda>s j. \<lparr> startPage = s + 4 * int j, endPage = min (s + 4 * int j + 3) (endPage c),
                 contextTitle = contextTitle c \<rparr>"
    have le: "?e + 1 \<le> endPage c + 1" by simp
    note IH = "1.IH" [OF True refl le]
    show ?thesis
    proof (cases "s + 3 \<le> endPage c")
      case True
      define m where "m = nat ((endPage c - (s + 4) + 4) div 4)"
      from True have e: "?e + 1 = s + 4" by (simp add: MAX_CHUNK_PAGES_def)
      have "(endPage c - s + 4) div 4 = (endPage c - (s + 4) + 4) div 4 + 1"
        by simp
      moreover have "0 \<le> (endPage c - (s + 4) + 4) div 4" using True by simp
      ultimately have n: "nat ((endPage c - s + 4) div 4) = Suc m"
        unfolding m_def by (simp only: Suc_nat_eq_nat_zadd1)
      have "subSplit s c = ?g s 0 # subSplit (s + 4) c"
        using True by (subst subSplit.simps) (simp add: Let_def MAX_CHUNK_PAGES_def add.commute)
      also have "subSplit (s + 4) c = map (?g (s + 4)) [0..<m]"
        using IH unfolding e m_def .
      also have "\<dots> = map (?g s) (map Suc [0..<m])"
        by (simp add: algebra_simps)
      finally show ?thesis
        unfolding n upt_Suc_shift by simp
    next
      case False
      with \<open>s \<le> endPage c\<close> have e: "?e = endPage c" by (simp add: MAX_CHUNK_PAGES_def)
      have n: "nat ((endPage c - s + 4) div 4) = 1" using False \<open>s \<le> endPage c\<close> by simp
      have "subSplit (endPage c + 1) c = []" by (subst subSplit.simps) simp
      then have "subSplit s c = [?g s 0]"
        using \<open>s \<le> endPage c\<close> e False
        by (subst subSplit.simps) (simp add: Let_def MAX_CHUNK_PAGES_def)
      then show ?thesis unfolding n by simp
    qed
  qed
qed

subsection \<open>Contiguous covers\<close>

lemma covers_nth_le: "covers a cs b \<Longrightarrow> i < length cs \<Longrightarrow> startPage (cs ! i) \<le> endPage (cs ! i)"
proof (induction cs arbitrary: a i)
  case Nil then show ?case by simp
next
  case (Cons c cs) then show ?case by (cases i) auto
qed

lemma covers_adjacent:
  "covers a cs b \<Longrightarrow> Suc i < length cs \<Longrightarrow> startPage (cs ! Suc i) = endPage (cs ! i) + 1"
proof (induction cs arbitrary: a i)
  case Nil then show ?case by simp
next
  case (Cons c cs)
  show ?case
  proof (cases i)
    case 0
    with Cons.prems show ?thesis by (cases cs) auto
  next
    case (Suc k)
    with Cons.prems Cons.IH [of "endPage c + 1" k] show ?thesis by simp
  qed
qed

lemma covers_hd: "covers a cs b \<Longrightarrow> cs \<noteq> [] \<Longrightarrow> startPage (hd cs) = a"
  by (cases cs) auto

lemma covers_last: "covers a cs b \<Longrightarrow> cs \<noteq> [] \<Longrightarrow> endPage (last cs) = b"
proof (induction cs arbitrary: a)
  case Nil then show ?case by simp
next
  case (Cons c cs) then show ?case by (cases cs) auto
qed

lemma covers_bounds: "covers a cs b \<Longrightarrow> a \<le> b + 1"
proof (induction cs arbitrary: a)
  case Nil then show ?case by simp
next
  case (Cons c cs)
  from Cons.prems have "a \<le> endPage c" "covers (endPage c + 1) cs b" by auto
  with Cons.IH [of "endPage c + 1"] show ?case by simp
qed

lemma covers_pages:
  "covers a cs b \<Longrightarrow> (\<exists>c\<in>set cs. startPage c \<le> p \<and> p \<le> endPage c) \<longleftrightarrow> (a \<le> p \<and> p \<le> b)"
proof (induction cs arbitrary: a)
  case Nil then show ?case by auto
next
  case (Cons c cs)
  from Cons.prems have c: "startPage c = a" "a \<le> endPage c" and r: "covers (endPage c + 1) cs b"
    by auto
  from covers_bounds [OF r] have "endPage c \<le> b" by simp
  with Cons.IH [OF r] c show ?case by auto
qed

lemma covers_disjoint:
  "covers a cs b \<Longrightarrow> i < j \<Longrightarrow> j < length cs \<Longrightarrow> endPage (cs ! i) < startPage (cs ! j)"
proof (induction cs arbitrary: a i j)
  case Nil then show ?case by simp
next
  case (Cons c cs)
  from Cons.prems have c: "startPage c = a" "a \<le> endPage c" and r: "covers (endPage c + 1) cs b"
    by auto
  from Cons.prems obtain j' where j: "j = Suc j'" "j' < length cs" by (cases j) auto
  show ?case
  proof (cases i)
    case 0
    have "cs ! j' \<in> set cs" using j by simp
    moreover have "startPage (cs ! j') \<le> endPage (cs ! j')" using covers_nth_le [OF r] j by simp
    ultimately have "endPage c + 1 \<le> startPage (cs ! j')"
      using covers_pages [OF r, of "startPage (cs ! j')"] by blast
    with 0 j show ?thesis by simp
  next
    case (Suc i')
    with Cons.prems j Cons.IH [OF r, of i' j'] show ?thesis by simp
  qed
qed

lemma covers_newChunks_aux:
  "covers a (map (\<lambda>(index, c). \<lparr> startPage = startPage c, endPage = endPage c,
                           contextTitle = contextTitle c, id_chunk = index + 1 \<rparr>)
         (enumerate n fcs)) b = covers a fcs b"
  by (induction fcs arbitrary: a n) auto

lemma covers_newChunksWithId: "covers a (newChunksWithId fcs) b = covers a fcs b"
  unfolding newChunksWithId_def by (rule covers_newChunks_aux)

lemma length_newChunksWithId: "length (newChunksWithId fcs) = length fcs"
  by (simp add: newChunksWithId_def)

lemma nth_newChunksWithId:
  "i < length fcs \<Longrightarrow> newChunksWithId fcs ! i =
     \<lparr> startPage = startPage (fcs ! i), endPage = endPage (fcs ! i),
       contextTitle = contextTitle (fcs ! i), id_chunk = i + 1 \<rparr>"
  by (simp add: newChunksWithId_def nth_enumerate_eq)

lemma truncate_newChunksWithId: "map page_range.truncate (newChunksWithId fcs) = fcs"
  by (rule nth_equalityI) (simp_all add: length_newChunksWithId nth_newChunksWithId page_range.truncate_def)

lemma section_nonempty:
  assumes "sorted_wrt (<) (map page ub)" "\<forall>u\<in>set ub. page u \<le> N" "i < length ub"
  shows "startPage (sectionOf ub N i) \<le> endPage (sectionOf ub N i)"
proof (cases "i + 1 < length ub")
  case True
  with assms(1) have "page (ub ! i) < page (ub ! (i + 1))"
    using sorted_wrt_nth_less [of "\<lambda>x y. page x < page y" ub i "i + 1"]
    by (simp add: sorted_wrt_map)
  with True show ?thesis by (simp add: sectionOf_def)
next
  case False
  with assms show ?thesis by (simp add: sectionOf_def)
qed

lemma initialChunks_all:
  assumes "sorted_wrt (<) (map page ub)" "\<forall>u\<in>set ub. page u \<le> N"
  shows "initialChunks ub N = map (sectionOf ub N) [0..<length ub]"
  unfolding initialChunks_def
  using section_nonempty [OF assms] by (simp add: filter_id_conv)

lemma sections_chain:
  assumes "sorted_wrt (<) (map page ub)" "\<forall>u\<in>set ub. page u \<le> N"
  shows "k < length ub \<Longrightarrow>
     covers (page (ub ! k))
       (concat (map (\<lambda>c. subSplit (startPage c) c) (map (sectionOf ub N) [k..<length ub]))) N"
proof (induction "length ub - k" arbitrary: k)
  case 0
  then show ?case by simp
next
  case (Suc d)
  let ?sec = "sectionOf ub N k"
  have upt: "[k..<length ub] = k # [Suc k..<length ub]"
    using Suc.prems by (simp add: upt_conv_Cons)
  have ne: "startPage ?sec \<le> endPage ?sec"
    using section_nonempty [OF assms Suc.prems] .
  then have first: "covers (startPage ?sec) (subSplit (startPage ?sec) ?sec) (endPage ?sec)"
    by (intro subSplit_covers) simp
  have st: "startPage ?sec = page (ub ! k)" by (simp add: sectionOf_def)
  have rest: "covers (endPage ?sec + 1)
       (concat (map (\<lambda>c. subSplit (startPage c) c) (map (sectionOf ub N) [Suc k..<length ub]))) N"
  proof (cases "Suc k < length ub")
    case True
    then have "endPage ?sec + 1 = page (ub ! Suc k)" by (simp add: sectionOf_def)
    moreover from Suc.hyps(2) have "d = length ub - Suc k" by simp
    ultimately show ?thesis using Suc.hyps(1) [of "Suc k"] True by simp
  next
    case False
    then show ?thesis by (simp add: sectionOf_def)
  qed
  show ?case
    unfolding upt using covers_append [OF first rest] st by simp
qed

lemma finalChunks_covers:
  assumes "sorted_wrt (<) (map page ub)" "\<forall>u\<in>set ub. page u \<le> N" "ub \<noteq> []"
  shows "covers (page (hd ub)) (finalChunks (initialChunks ub N)) N"
proof -
  from assms(3) have "0 < length ub" by simp
  from sections_chain [OF assms(1,2) this] assms(3)
  show ?thesis
    by (simp add: finalChunks_def initialChunks_all [OF assms(1,2)] hd_conv_nth)
qed

lemma finalChunks_elem:
  assumes "x \<in> set (finalChunks ics)"
  shows "\<exists>c\<in>set ics. startPage c \<le> startPage x \<and> startPage x \<le> endPage x \<and> endPage x \<le> endPage c \<and>
     endPage x - startPage x + 1 \<le> 4 \<and>
     (endPage x - startPage x + 1 = 4 \<or> endPage x = endPage c) \<and>
     contextTitle x = contextTitle c"
proof -
  from assms obtain c where "c \<in> set ics" "x \<in> set (subSplit (startPage c) c)"
    by (auto simp: finalChunks_def)
  with subSplit_elem [of x "startPage c" c] show ?thesis by blast
qed

lemma finalChunks_closed:
  assumes "\<forall>c\<in>set ics. startPage c \<le> endPage c"
  shows "finalChunks ics =
    concat (map (\<lambda>c. map (\<lambda>j. \<lparr> startPage = startPage c + 4 * int j,
                                  endPage = min (startPage c + 4 * int j + 3) (endPage c),
                                  contextTitle = contextTitle c \<rparr>)
                          [0..<nat ((endPage c - startPage c + 4) div 4)]) ics)"
  unfolding finalChunks_def
  by (rule arg_cong [where f = concat], rule map_cong [OF refl], rule subSplit_closed)
     (use assms in auto)

lemma uniqueBookmarks_hd:
  assumes "\<forall>b\<in>set bs. 1 \<le> page b" "\<exists>b\<in>set bs. page b = 1"
  shows "uniqueBookmarks bs \<noteq> [] \<and> page (hd (uniqueBookmarks bs)) = 1"
proof -
  let ?ub = "uniqueBookmarks bs"
  from assms(2) uniqueBookmarks_pages [of bs] have "1 \<in> page ` set ?ub" by force
  then obtain u where u: "u \<in> set ?ub" "page u = 1" by auto
  then have ne: "?ub \<noteq> []" by auto
  have "hd ?ub \<in> set ?ub" using ne by simp
  then have "page (hd ?ub) \<in> page ` set bs" using uniqueBookmarks_pages [of bs] by blast
  with assms(1) have ge: "1 \<le> page (hd ?ub)" by auto
  have "page (hd ?ub) \<le> page u"
  proof (cases "u = hd ?ub")
    case True then show ?thesis by simp
  next
    case False
    with u ne have "u \<in> set (tl ?ub)" by (cases ?ub) auto
    with uniqueBookmarks_strict [of bs] ne show ?thesis
      by (cases ?ub) (auto simp: sorted_wrt_map)
  qed
  with ge u ne show ?thesis by simp
qed

subsection \<open>The chunk list\<close>

text \<open>
  Claim C1.  For every list of resolved bookmarks of a document with \<open>N\<close> pages
  (every page within \<open>1..N\<close>) that has a bookmark at page 1: the unique bookmarks
  are strictly ascending by page, carry exactly the pages of the input and are, for each
  page, the first bookmark of that page in the sorted list; section \<open>i\<close> spans from the
  page of bookmark \<open>i\<close> to the page before bookmark \<open>i + 1\<close> (the last one to
  \<open>N\<close>) with the bookmark's title, and no section is empty; each section is cut
  greedily from the left into ranges of four pages, the last one shorter if need be,
  with the section's title; the resulting chunks are contiguous, disjoint, cover exactly
  the pages \<open>1..N\<close>, span at most four pages each and carry the ids
  \<open>1..count\<close> in page order.
\<close>

theorem C1_auto_split:
  assumes pages: "\<forall>b\<in>set bookmarks. 1 \<le> page b \<and> page b \<le> N"
      and first: "\<exists>b\<in>set bookmarks. page b = 1"
  shows "let ub = uniqueBookmarks bookmarks;
             secs = initialChunks ub N;
             cs = splitBookmarks bookmarks N
         in sorted_wrt (<) (map page ub) \<and>
            page ` set ub = page ` set bookmarks \<and>
            (\<forall>u\<in>set ub. find (\<lambda>b. page b = page u) (sort_key page bookmarks) = Some u) \<and>
            length secs = length ub \<and>
            (\<forall>i<length ub. secs ! i =
                \<lparr> startPage = page (ub ! i),
                  endPage = (if i + 1 < length ub then page (ub ! (i + 1)) - 1 else N),
                  contextTitle = Some (title (ub ! i)) \<rparr>) \<and>
            map page_range.truncate cs =
              concat (map (\<lambda>c. map (\<lambda>j. \<lparr> startPage = startPage c + 4 * int j,
                                            endPage = min (startPage c + 4 * int j + 3) (endPage c),
                                            contextTitle = contextTitle c \<rparr>)
                                    [0..<nat ((endPage c - startPage c + 4) div 4)]) secs) \<and>
            cs \<noteq> [] \<and> startPage (hd cs) = 1 \<and> endPage (last cs) = N \<and>
            (\<forall>i<length cs. startPage (cs ! i) \<le> endPage (cs ! i) \<and>
                             endPage (cs ! i) - startPage (cs ! i) + 1 \<le> 4 \<and>
                             id_chunk (cs ! i) = i + 1) \<and>
            (\<forall>i. Suc i < length cs \<longrightarrow> startPage (cs ! Suc i) = endPage (cs ! i) + 1) \<and>
            (\<forall>i j. i < j \<and> j < length cs \<longrightarrow> endPage (cs ! i) < startPage (cs ! j)) \<and>
            (\<forall>p. (\<exists>c\<in>set cs. startPage c \<le> p \<and> p \<le> endPage c) \<longleftrightarrow> (1 \<le> p \<and> p \<le> N))"
proof -
  define ub where "ub = uniqueBookmarks bookmarks"
  define secs where "secs = initialChunks ub N"
  define fcs where "fcs = finalChunks secs"
  define cs where "cs = splitBookmarks bookmarks N"
  have cs: "cs = newChunksWithId fcs"
    by (simp add: cs_def fcs_def secs_def ub_def splitBookmarks_def)
  have strict: "sorted_wrt (<) (map page ub)"
    unfolding ub_def by (rule uniqueBookmarks_strict)
  have img: "page ` set ub = page ` set bookmarks"
    unfolding ub_def by (rule uniqueBookmarks_pages)
  have firsts: "\<forall>u\<in>set ub. find (\<lambda>b. page b = page u) (sort_key page bookmarks) = Some u"
    unfolding ub_def by (simp add: uniqueBookmarks_first find_sort_key)
  have le: "\<forall>u\<in>set ub. page u \<le> N"
  proof
    fix u assume "u \<in> set ub"
    then have "page u \<in> page ` set bookmarks" using img by blast
    with pages show "page u \<le> N" by auto
  qed
  have hd: "ub \<noteq> []" "page (hd ub) = 1"
    using uniqueBookmarks_hd [of bookmarks] pages first unfolding ub_def by auto
  have secs: "secs = map (sectionOf ub N) [0..<length ub]"
    unfolding secs_def by (rule initialChunks_all [OF strict le])
  have len: "length secs = length ub" by (simp add: secs)
  have nth: "\<forall>i<length ub. secs ! i =
                \<lparr> startPage = page (ub ! i),
                  endPage = (if i + 1 < length ub then page (ub ! (i + 1)) - 1 else N),
                  contextTitle = Some (title (ub ! i)) \<rparr>"
    by (simp add: secs sectionOf_def)
  have ne: "\<forall>c\<in>set secs. startPage c \<le> endPage c"
    unfolding secs using section_nonempty [OF strict le] by auto
  have closed: "map page_range.truncate cs =
              concat (map (\<lambda>c. map (\<lambda>j. \<lparr> startPage = startPage c + 4 * int j,
                                            endPage = min (startPage c + 4 * int j + 3) (endPage c),
                                            contextTitle = contextTitle c \<rparr>)
                                    [0..<nat ((endPage c - startPage c + 4) div 4)]) secs)"
    unfolding cs truncate_newChunksWithId fcs_def by (rule finalChunks_closed [OF ne])
  have cov_f: "covers 1 fcs N"
    using finalChunks_covers [OF strict le hd(1)] hd(2) by (simp add: fcs_def secs_def)
  then have cov: "covers 1 cs N"
    by (simp add: cs covers_newChunksWithId)
  from first pages have "1 \<le> N" by auto
  with cov have nonempty: "cs \<noteq> []" by (cases cs) auto
  have lencs: "length cs = length fcs" by (simp add: cs length_newChunksWithId)
  have each: "\<forall>i<length cs. startPage (cs ! i) \<le> endPage (cs ! i) \<and>
                             endPage (cs ! i) - startPage (cs ! i) + 1 \<le> 4 \<and>
                             id_chunk (cs ! i) = i + 1"
  proof (intro allI impI)
    fix i assume i: "i < length cs"
    then have "fcs ! i \<in> set fcs" by (simp add: lencs)
    from finalChunks_elem [OF this [unfolded fcs_def]]
    have "startPage (fcs ! i) \<le> endPage (fcs ! i) \<and> endPage (fcs ! i) - startPage (fcs ! i) + 1 \<le> 4"
      unfolding fcs_def by blast
    with i show "startPage (cs ! i) \<le> endPage (cs ! i) \<and>
                             endPage (cs ! i) - startPage (cs ! i) + 1 \<le> 4 \<and>
                             id_chunk (cs ! i) = i + 1"
      by (simp add: cs length_newChunksWithId nth_newChunksWithId)
  qed
  have adj: "\<forall>i. Suc i < length cs \<longrightarrow> startPage (cs ! Suc i) = endPage (cs ! i) + 1"
    using covers_adjacent [OF cov] by blast
  have disj: "\<forall>i j. i < j \<and> j < length cs \<longrightarrow> endPage (cs ! i) < startPage (cs ! j)"
    using covers_disjoint [OF cov] by blast
  have cover: "\<forall>p. (\<exists>c\<in>set cs. startPage c \<le> p \<and> p \<le> endPage c) \<longleftrightarrow> (1 \<le> p \<and> p \<le> N)"
    using covers_pages [OF cov] by blast
  note ends = covers_hd [OF cov nonempty] covers_last [OF cov nonempty]
  show ?thesis
    unfolding Let_def ub_def [symmetric] secs_def [symmetric] cs_def [symmetric]
    using strict img firsts len nth closed nonempty ends each adj disj cover
    by (intro conjI)
qed

text \<open>The example of the specification: bookmarks at pages 1, 5, 5 and 12 of a
  14-page document.\<close>

lemma splitBookmarks_example:
  "splitBookmarks [\<lparr>title = ''A'', page = 1\<rparr>, \<lparr>title = ''B'', page = 5\<rparr>,
          \<lparr>title = ''C'', page = 5\<rparr>, \<lparr>title = ''D'', page = 12\<rparr>] 14 =
   [\<lparr>startPage = 1, endPage = 4, contextTitle = Some ''A'', id_chunk = 1\<rparr>,
    \<lparr>startPage = 5, endPage = 8, contextTitle = Some ''B'', id_chunk = 2\<rparr>,
    \<lparr>startPage = 9, endPage = 11, contextTitle = Some ''B'', id_chunk = 3\<rparr>,
    \<lparr>startPage = 12, endPage = 14, contextTitle = Some ''D'', id_chunk = 4\<rparr>]"
  by (simp add: splitBookmarks_def uniqueBookmarks_def initialChunks_def sectionOf_def
      finalChunks_def newChunksWithId_def subSplit.simps MAX_CHUNK_PAGES_def Let_def upt_conv_Cons)

theorem C1_auto_split_witness:
  "splitBookmarks [\<lparr>title = ''A'', page = 1\<rparr>, \<lparr>title = ''B'', page = 5\<rparr>,
          \<lparr>title = ''C'', page = 5\<rparr>, \<lparr>title = ''D'', page = 12\<rparr>] 14 \<noteq> [] \<and>
   startPage (hd (splitBookmarks [\<lparr>title = ''A'', page = 1\<rparr>, \<lparr>title = ''B'', page = 5\<rparr>,
          \<lparr>title = ''C'', page = 5\<rparr>, \<lparr>title = ''D'', page = 12\<rparr>] 14)) = 1 \<and>
   endPage (last (splitBookmarks [\<lparr>title = ''A'', page = 1\<rparr>, \<lparr>title = ''B'', page = 5\<rparr>,
          \<lparr>title = ''C'', page = 5\<rparr>, \<lparr>title = ''D'', page = 12\<rparr>] 14)) = 14"
proof -
  let ?bs = "[\<lparr>title = ''A'', page = 1\<rparr>, \<lparr>title = ''B'', page = 5\<rparr>,
          \<lparr>title = ''C'', page = 5\<rparr>, \<lparr>title = ''D'', page = 12\<rparr>]"
  have h1: "\<forall>b\<in>set ?bs. 1 \<le> page b \<and> page b \<le> 14" by simp
  have h2: "\<exists>b\<in>set ?bs. page b = 1" by simp
  from C1_auto_split [OF h1 h2] show ?thesis
    unfolding Let_def by blast
qed

section \<open>The retry policy of the generation service (claim C2)\<close>











lemma retryLoop_Inr:
  "fst (retryLoop api attempt le) = Inr xs \<Longrightarrow>
     \<exists>k. attempt \<le> k \<and> k \<le> MAX_RETRIES \<and> attemptResult (api k) = Inr xs"
proof (induction api attempt le rule: retryLoop.induct)
  case (1 api attempt lastError)
  show ?case
  proof (cases "attempt \<le> MAX_RETRIES")
    case False
    with "1.prems" show ?thesis by (subst (asm) retryLoop.simps) (simp split: if_splits)
  next
    case True
    show ?thesis
    proof (cases "attemptResult (api attempt)")
      case (Inr ys)
      with True "1.prems" have "ys = xs" by (subst (asm) retryLoop.simps) simp
      with Inr True show ?thesis by auto
    next
      case (Inl e)
      note IH1 = "1.IH"(1) [OF True Inl] and IH2 = "1.IH"(2) [OF True Inl]
      show ?thesis
      proof (cases "isPermissionDenied e \<or> isLocationUnsupported e")
        case True
        with \<open>attempt \<le> MAX_RETRIES\<close> Inl "1.prems" show ?thesis
          by (subst (asm) retryLoop.simps) (auto split: if_splits)
      next
        case False
        then have np: "\<not> isPermissionDenied e" "\<not> isLocationUnsupported e" by simp_all
        show ?thesis
        proof (cases "attempt < MAX_RETRIES")
          case True
          from "1.prems" True Inl np \<open>attempt \<le> MAX_RETRIES\<close>
          have "fst (retryLoop api (attempt + 1) (Some e)) = Inr xs"
            by (subst (asm) retryLoop.simps) (simp add: after_def Let_def)
          from IH1 [OF np True refl this] show ?thesis by (auto dest: Suc_leD)
        next
          case False
          from "1.prems" False Inl np \<open>attempt \<le> MAX_RETRIES\<close>
          have "fst (retryLoop api (attempt + 1) (Some e)) = Inr xs"
            by (subst (asm) retryLoop.simps) (simp add: after_def Let_def)
          from IH2 [OF np False this] show ?thesis by (auto dest: Suc_leD)
        qed
      qed
    qed
  qed
qed






section \<open>The format check of a response (claim C7)\<close>

lemma matchesFormat_iff:
  "matchesFormat v \<longleftrightarrow>
     (\<exists>items. v = JArray items \<and>
        list_all (\<lambda>item. \<exists>kvs. item = JObject kvs \<and> ''question'' \<in> fst ` set kvs \<and>
                               ''answer'' \<in> fst ` set kvs) items)"
proof -
  have item: "(typeofObject item \<and> item \<noteq> JNull \<and> hasProperty ''question'' item \<and>
               hasProperty ''answer'' item) \<longleftrightarrow>
              (\<exists>kvs. item = JObject kvs \<and> ''question'' \<in> fst ` set kvs \<and> ''answer'' \<in> fst ` set kvs)"
    for item
    by (cases item) (simp_all add: typeofObject_def hasProperty_def)
  show ?thesis
  proof (cases v)
    case (JArray items)
    then show ?thesis
      unfolding matchesFormat_def by (cases items) (simp_all add: item)
  qed (simp_all add: matchesFormat_def)
qed

lemma attemptResult_Inr_iff:
  "attemptResult out = Inr xs \<longleftrightarrow>
     out = Parsed (JArray xs) \<and>
     list_all (\<lambda>item. \<exists>kvs. item = JObject kvs \<and> ''question'' \<in> fst ` set kvs \<and>
                            ''answer'' \<in> fst ` set kvs) xs"
proof (cases out)
  case (Parsed v)
  then show ?thesis
    by (auto simp: attemptResult_def matchesFormat_iff arrayItems_def)
qed (simp_all add: attemptResult_def)

text \<open>
  Claim C7, as the code has it.  An attempt succeeds exactly when the response parses as
  an array each of whose elements is an object (not \<open>null\<close>, not an array) that has a
  member named \<open>question\<close> and a member named \<open>answer\<close>; the empty array passes.  The
  values of the two members are not inspected.  Hence every element of a list returned by
  the service is an object with both members present.
\<close>

theorem C7_schema_validation:
  "(attemptResult out = Inr xs \<longleftrightarrow>
      out = Parsed (JArray xs) \<and>
      list_all (\<lambda>item. \<exists>kvs. item = JObject kvs \<and> ''question'' \<in> fst ` set kvs \<and>
                             ''answer'' \<in> fst ` set kvs) xs) \<and>
   (fst (generateQuestionsAndAnswers api text_arg images) = Inr ys \<longrightarrow>
      list_all (\<lambda>item. \<exists>kvs. item = JObject kvs \<and> ''question'' \<in> fst ` set kvs \<and>
                             ''answer'' \<in> fst ` set kvs) ys)"
proof (intro conjI impI)
  show "attemptResult out = Inr xs \<longleftrightarrow>
      out = Parsed (JArray xs) \<and>
      list_all (\<lambda>item. \<exists>kvs. item = JObject kvs \<and> ''question'' \<in> fst ` set kvs \<and>
                             ''answer'' \<in> fst ` set kvs) xs"
    by (rule attemptResult_Inr_iff)
next
  assume r: "fst (generateQuestionsAndAnswers api text_arg images) = Inr ys"
  show "list_all (\<lambda>item. \<exists>kvs. item = JObject kvs \<and> ''question'' \<in> fst ` set kvs \<and>
                             ''answer'' \<in> fst ` set kvs) ys"
  proof (cases "trim text_arg = [] \<and> (images = None \<or> images = Some [])")
    case True
    with r have "ys = []" by (auto simp: generateQuestionsAndAnswers_def)
    then show ?thesis by simp
  next
    case False
    with r have "fst (retryLoop api 1 None) = Inr ys"
      by (auto simp: generateQuestionsAndAnswers_def)
    from retryLoop_Inr [OF this] obtain k where "attemptResult (api k) = Inr ys" by blast
    then show ?thesis by (simp add: attemptResult_Inr_iff)
  qed
qed

theorem C7_schema_validation_witness:
  "list_all (\<lambda>item. \<exists>kvs. item = JObject kvs \<and> ''question'' \<in> fst ` set kvs \<and>
                             ''answer'' \<in> fst ` set kvs)
     [JObject [(''question'', JString ''Q''), (''answer'', JString ''A'')]]"
proof -
  let ?api = "\<lambda>n::nat. Parsed (JArray [JObject [(''question'', JString ''Q''), (''answer'', JString ''A'')]])"
  have "fst (generateQuestionsAndAnswers ?api ''text'' None) =
          Inr [JObject [(''question'', JString ''Q''), (''answer'', JString ''A'')]]"
    by code_simp
  with C7_schema_validation [of _ _ ?api "''text''" None] show ?thesis by blast
qed

text \<open>A response whose only element has an empty question and a \<open>null\<close> answer is
  accepted and returned at the first attempt.\<close>

theorem C7_unchecked_values_counterexample:
  "fst (generateQuestionsAndAnswers
          (\<lambda>n. Parsed (JArray [JObject [(''question'', JString []), (''answer'', JNull)]]))
          ''text'' None)
     = Inr [JObject [(''question'', JString []), (''answer'', JNull)]] \<and>
   \<not> nonEmptyStringField ''question'' (JObject [(''question'', JString []), (''answer'', JNull)]) \<and>
   \<not> nonEmptyStringField ''answer'' (JObject [(''question'', JString []), (''answer'', JNull)])"
  by code_simp

section \<open>The normalizer (claims C3 and C6)\<close>

lemma lowerFirst:
  "toLowerCase (charAt q 0) @ slice q 1 = (case q of [] \<Rightarrow> [] | c # cs \<Rightarrow> toLowerChar c # cs)"
  by (cases q) (simp_all add: toLowerCase_def charAt_def slice_def)

lemma endsWith_question: "endsWith q ''?'' \<longleftrightarrow> q \<noteq> [] \<and> last q = CHR ''?''"
proof (cases q rule: rev_cases)
  case Nil
  then show ?thesis by (simp add: endsWith_def)
next
  case (snoc ys y)
  then show ?thesis by (auto simp: endsWith_def)
qed

lemma falsy_iff: "falsy v \<longleftrightarrow> v = None \<or> v = Some []"
  by (simp add: falsy_def split: option.splits)

lemma contextPrefix_eq:
  "contextPrefix ctxTitle fname =
     (if ctxTitle = None \<or> ctxTitle = Some []
      then ''In the document '' @ dquote @ documentName fname @ dquote @ '', ''
      else ''In the section '' @ dquote @ the ctxTitle @ dquote @ '' of the document '' @
           dquote @ documentName fname @ dquote @ '', '')"
  by (simp add: contextPrefix_def falsy_iff)

lemma normalizePair_eq:
  "normalizePair ctxTitle fname pair =
     (if question pair \<in> {None, Some []} \<or> answer pair \<in> {None, Some []} then None
      else Some \<lparr> input_text =
              contextPrefix ctxTitle fname @
              (let q = trim (the (question pair));
                   q' = (if q \<noteq> [] \<and> last q = CHR ''?'' then q else q @ ''?'')
               in toLowerChar (hd q') # tl q'),
            output_text = trim (the (answer pair)) \<rparr>)"
proof -
  have "toLowerCase (charAt q 0) @ slice q 1 = toLowerChar (hd q) # tl q" if "q \<noteq> []" for q
    using that by (cases q) (simp_all add: toLowerCase_def charAt_def slice_def)
  then show ?thesis
    by (auto simp: normalizePair_def falsy_iff Let_def endsWith_question)
qed

lemma finalPairs_eq:
  "finalPairs ctxTitle fname basePairs =
     map (\<lambda>pair. the (normalizePair ctxTitle fname pair))
         (filter (\<lambda>pair. normalizePair ctxTitle fname pair \<noteq> None) basePairs)"
  by (induction basePairs) (simp_all add: finalPairs_def)

text \<open>
  Claim C3, as the code has it.  A raw pair whose question or answer is absent or empty is
  dropped.  Every other pair yields, in input order, the context clause followed by the
  trimmed question, with a question mark appended unless it ends with one and with its
  first character lower-cased, and the trimmed answer.  The context clause names the
  section when the context title is present and not empty, and only the document
  otherwise; the document name is \<open>documentName\<close> of the file name.
\<close>

theorem C3_normalizer:
  "finalPairs ctxTitle fname basePairs =
     map (\<lambda>pair.
            \<lparr> input_text =
                (if ctxTitle = None \<or> ctxTitle = Some []
                 then ''In the document '' @ dquote @ documentName fname @ dquote @ '', ''
                 else ''In the section '' @ dquote @ the ctxTitle @ dquote @
                      '' of the document '' @ dquote @ documentName fname @ dquote @ '', '') @
                (let q = trim (the (question pair));
                     q' = (if q \<noteq> [] \<and> last q = CHR ''?'' then q else q @ ''?'')
                 in toLowerChar (hd q') # tl q'),
              output_text = trim (the (answer pair)) \<rparr>)
         (filter (\<lambda>pair. question pair \<notin> {None, Some []} \<and> answer pair \<notin> {None, Some []})
                 basePairs)"
proof -
  have f: "(normalizePair ctxTitle fname pair \<noteq> None) =
           (question pair \<notin> {None, Some []} \<and> answer pair \<notin> {None, Some []})" for pair
    by (simp add: normalizePair_eq)
  show ?thesis
    unfolding finalPairs_eq f
  proof (rule map_cong [OF refl])
    fix pair
    assume "pair \<in> set (filter (\<lambda>pair. question pair \<notin> {None, Some []} \<and>
                                         answer pair \<notin> {None, Some []}) basePairs)"
    then have "\<not> (question pair \<in> {None, Some []} \<or> answer pair \<in> {None, Some []})"
      by simp
    then have "normalizePair ctxTitle fname pair =
        Some \<lparr> input_text =
              contextPrefix ctxTitle fname @
              (let q = trim (the (question pair));
                   q' = (if q \<noteq> [] \<and> last q = CHR ''?'' then q else q @ ''?'')
               in toLowerChar (hd q') # tl q'),
            output_text = trim (the (answer pair)) \<rparr>"
      by (simp only: normalizePair_eq if_False)
    then show "the (normalizePair ctxTitle fname pair) =
        \<lparr> input_text =
                (if ctxTitle = None \<or> ctxTitle = Some []
                 then ''In the document '' @ dquote @ documentName fname @ dquote @ '', ''
                 else ''In the section '' @ dquote @ the ctxTitle @ dquote @
                      '' of the document '' @ dquote @ documentName fname @ dquote @ '', '') @
                (let q = trim (the (question pair));
                     q' = (if q \<noteq> [] \<and> last q = CHR ''?'' then q else q @ ''?'')
                 in toLowerChar (hd q') # tl q'),
              output_text = trim (the (answer pair)) \<rparr>"
      by (simp only: contextPrefix_eq option.sel)
  qed
qed

text \<open>The example of the claim.\<close>

theorem C3_normalizer_example:
  "finalPairs (Some ''Intro'') (Some ''doc.pdf'')
     [\<lparr> question = Some ''what is x'', answer = Some '' y '' \<rparr>]
   = [\<lparr> input_text = ''In the section '' @ dquote @ ''Intro'' @ dquote @ '' of the document '' @
                       dquote @ ''doc.pdf'' @ dquote @ '', what is x?'',
        output_text = ''y'' \<rparr>]"
  unfolding C3_normalizer [of "Some ''Intro''" "Some ''doc.pdf''"]
  by (simp add: documentName_def falsy_def trim_def isWhiteSpace_def toLowerChar_def Let_def)

text \<open>With a context title that is present but empty the clause names the document
  only, not a section with an empty name.\<close>

theorem C3_empty_title_counterexample:
  "finalPairs (Some []) (Some ''doc.pdf'')
     [\<lparr> question = Some ''what is x'', answer = Some '' y '' \<rparr>]
   \<noteq> [\<lparr> input_text = ''In the section '' @ dquote @ [] @ dquote @ '' of the document '' @
                       dquote @ ''doc.pdf'' @ dquote @ '', what is x?'',
        output_text = ''y'' \<rparr>]"
  by (simp add: finalPairs_def normalizePair_def contextPrefix_def documentName_def falsy_def
      trim_def isWhiteSpace_def toLowerChar_def toLowerCase_def charAt_def slice_def endsWith_def
      dquote_def Let_def)

lemma trimmed_trim: "trimmed (trim s)"
proof -
  let ?a = "dropWhile isWhiteSpace s"
  let ?b = "dropWhile isWhiteSpace (rev ?a)"
  show ?thesis
  proof (cases "?b = []")
    case True
    then show ?thesis by (simp add: trimmed_def trim_def)
  next
    case False
    then have hb: "\<not> isWhiteSpace (hd ?b)" by (rule hd_dropWhile)
    have "?a \<noteq> []"
    proof
      assume "?a = []"
      then have "?b = []" by (simp only: rev.simps dropWhile.simps)
      with False show False by contradiction
    qed
    then have ha: "\<not> isWhiteSpace (hd ?a)" by (rule hd_dropWhile)
    have "last (rev ?b) = hd ?b" using False by (simp add: last_rev)
    moreover have "hd (rev ?b) = hd ?a"
    proof -
      have "rev ?a = takeWhile isWhiteSpace (rev ?a) @ ?b" by simp
      then have "?a = rev ?b @ rev (takeWhile isWhiteSpace (rev ?a))"
        by (metis rev_append rev_rev_ident)
      with False show ?thesis by (metis hd_append2 rev_is_Nil_conv)
    qed
    ultimately show ?thesis using ha hb False by (simp add: trimmed_def trim_def)
  qed
qed

lemma trim_nonempty_iff: "trim s \<noteq> [] \<longleftrightarrow> (\<exists>c\<in>set s. \<not> isWhiteSpace c)"
proof -
  have "trim s \<noteq> [] \<longleftrightarrow> dropWhile isWhiteSpace (rev (dropWhile isWhiteSpace s)) \<noteq> []"
    by (simp add: trim_def)
  also have "\<dots> \<longleftrightarrow> (\<exists>c\<in>set (dropWhile isWhiteSpace s). \<not> isWhiteSpace c)"
    by (simp only: dropWhile_eq_Nil_conv set_rev) blast
  also have "\<dots> \<longleftrightarrow> dropWhile isWhiteSpace s \<noteq> []"
  proof
    assume "\<exists>c\<in>set (dropWhile isWhiteSpace s). \<not> isWhiteSpace c"
    then show "dropWhile isWhiteSpace s \<noteq> []" by (auto dest: set_dropWhileD)
  next
    assume ne: "dropWhile isWhiteSpace s \<noteq> []"
    then have "\<not> isWhiteSpace (hd (dropWhile isWhiteSpace s))" by (rule hd_dropWhile)
    moreover have "hd (dropWhile isWhiteSpace s) \<in> set (dropWhile isWhiteSpace s)"
      using ne by simp
    ultimately show "\<exists>c\<in>set (dropWhile isWhiteSpace s). \<not> isWhiteSpace c" by blast
  qed
  also have "\<dots> \<longleftrightarrow> (\<exists>c\<in>set s. \<not> isWhiteSpace c)"
    by (simp only: dropWhile_eq_Nil_conv) blast
  finally show ?thesis .
qed

lemma toLowerChar_question: "toLowerChar (CHR ''?'') = CHR ''?''"
  by (simp add: toLowerChar_def Let_def)

lemma questioned_last:
  assumes "q' \<noteq> []" "last q' = CHR ''?''"
  shows "last (pre @ toLowerChar (hd q') # tl q') = CHR ''?''"
proof (cases q')
  case Nil
  with assms show ?thesis by simp
next
  case (Cons c cs)
  with assms show ?thesis by (cases cs) (auto simp: toLowerChar_question)
qed

text \<open>
  Claim C6, as the code has it.  Every pair the normalizer produces has an
  \<open>input_text\<close> that is not empty, ends with a question mark and starts with the context
  clause, and an \<open>output_text\<close> that has no white space at either end and is the trimmed
  answer of a raw pair; it is not empty exactly when that answer has a character that is
  not white space.
\<close>

theorem C6_qapair_invariant:
  "\<forall>p\<in>set (finalPairs ctxTitle fname basePairs).
      input_text p \<noteq> [] \<and>
      last (input_text p) = CHR ''?'' \<and>
      take (length (contextPrefix ctxTitle fname)) (input_text p) = contextPrefix ctxTitle fname \<and>
      trimmed (output_text p) \<and>
      (\<exists>raw\<in>set basePairs. \<exists>a. answer raw = Some a \<and> a \<noteq> [] \<and> output_text p = trim a \<and>
          (output_text p \<noteq> [] \<longleftrightarrow> (\<exists>c\<in>set a. \<not> isWhiteSpace c)))"
proof
  fix p
  assume "p \<in> set (finalPairs ctxTitle fname basePairs)"
  then obtain raw where raw: "raw \<in> set basePairs" "normalizePair ctxTitle fname raw = Some p"
    by (auto simp: finalPairs_eq)
  define q where "q = trim (the (question raw))"
  define q' where "q' = (if q \<noteq> [] \<and> last q = CHR ''?'' then q else q @ ''?'')"
  from raw(2) have nf: "answer raw \<notin> {None, Some []}"
    and p: "p = \<lparr> input_text = contextPrefix ctxTitle fname @ toLowerChar (hd q') # tl q',
                   output_text = trim (the (answer raw)) \<rparr>"
    by (auto simp: normalizePair_eq q_def q'_def Let_def split: if_splits)
  from nf obtain a where a: "answer raw = Some a" "a \<noteq> []" by (cases "answer raw") auto
  have q': "q' \<noteq> []" "last q' = CHR ''?''" by (auto simp: q'_def)
  have 1: "input_text p \<noteq> []" by (simp add: p)
  have 2: "last (input_text p) = CHR ''?''"
    unfolding p using questioned_last [OF q'] by simp
  have 3: "take (length (contextPrefix ctxTitle fname)) (input_text p) = contextPrefix ctxTitle fname"
    by (simp add: p)
  have 4: "trimmed (output_text p)" by (simp add: p trimmed_trim)
  have 5: "output_text p = trim a" by (simp add: p a)
  have 6: "output_text p \<noteq> [] \<longleftrightarrow> (\<exists>c\<in>set a. \<not> isWhiteSpace c)"
    unfolding 5 by (rule trim_nonempty_iff)
  from raw(1) a 1 2 3 4 5 6
  show "input_text p \<noteq> [] \<and>
      last (input_text p) = CHR ''?'' \<and>
      take (length (contextPrefix ctxTitle fname)) (input_text p) = contextPrefix ctxTitle fname \<and>
      trimmed (output_text p) \<and>
      (\<exists>raw\<in>set basePairs. \<exists>a. answer raw = Some a \<and> a \<noteq> [] \<and> output_text p = trim a \<and>
          (output_text p \<noteq> [] \<longleftrightarrow> (\<exists>c\<in>set a. \<not> isWhiteSpace c)))"
    by blast
qed

theorem C6_qapair_invariant_witness:
  "last (input_text (hd (finalPairs None (Some ''doc.pdf'')
                           [\<lparr> question = Some ''Is it'', answer = Some '' yes'' \<rparr>]))) = CHR ''?'' \<and>
   trimmed (output_text (hd (finalPairs None (Some ''doc.pdf'')
                           [\<lparr> question = Some ''Is it'', answer = Some '' yes'' \<rparr>])))"
proof -
  let ?p = "\<lparr> input_text = ''In the document '' @ dquote @ ''doc.pdf'' @ dquote @ '', is it?'',
                      output_text = ''yes'' \<rparr>"
  let ?fp = "finalPairs None (Some ''doc.pdf'') [\<lparr> question = Some ''Is it'', answer = Some '' yes'' \<rparr>]"
  have eq: "?fp = [?p]"
    by code_simp
  then have "hd ?fp \<in> set ?fp"
    by simp
  from bspec [OF C6_qapair_invariant this] show ?thesis by blast
qed

text \<open>An answer of a single space is kept and yields an empty \<open>output_text\<close>.\<close>

theorem C6_blank_answer_counterexample:
  "finalPairs None (Some ''doc.pdf'') [\<lparr> question = Some ''Is it'', answer = Some '' '' \<rparr>]
   = [\<lparr> input_text = ''In the document '' @ dquote @ ''doc.pdf'' @ dquote @ '', is it?'',
        output_text = [] \<rparr>]"
  by code_simp

section \<open>The QA cache\<close>

lemma cacheSet_keys: "fst ` set (cacheSet k v c) = insert k (fst ` set c)"
  by (induction c) force+

lemma cacheSet_sorted:
  "sorted_wrt (<) (map fst c) \<Longrightarrow> sorted_wrt (<) (map fst (cacheSet k v c))"
proof (induction c)
  case Nil
  show ?case by simp
next
  case (Cons kv c)
  obtain k' v' where kv: "kv = (k', v')" by (cases kv)
  from Cons.prems have tl: "sorted_wrt (<) (map fst c)" and hd: "\<forall>x\<in>set c. k' < fst x"
    by (auto simp: kv)
  consider "k < k'" | "k = k'" | "k' < k" by arith
  then show ?case
  proof cases
    case 1
    with Cons.prems show ?thesis by (auto simp: kv)
  next
    case 2
    with Cons.prems show ?thesis by (auto simp: kv)
  next
    case 3
    have "\<forall>x\<in>set (cacheSet k v c). k' < fst x"
    proof
      fix x assume "x \<in> set (cacheSet k v c)"
      then have "fst x \<in> insert k (fst ` set c)" using cacheSet_keys [of k v c] by blast
      with 3 hd show "k' < fst x" by auto
    qed
    with 3 Cons.IH [OF tl] show ?thesis by (simp add: kv)
  qed
qed

lemma cacheSet_map_of: "map_of (cacheSet k v c) = (map_of c)(k \<mapsto> v)"
proof (induction c)
  case Nil
  show ?case by simp
next
  case (Cons kv c)
  obtain k' v' where kv: "kv = (k', v')" by (cases kv)
  show ?case using Cons.IH by (auto simp: kv fun_upd_twist)
qed

lemma cacheAfter_Cons:
  "cacheAfter gen (x # pre) cache =
     cacheAfter gen pre (cacheSet (id_chunk x) (projr (gen x)) cache)"
  by (simp add: cacheAfter_def)

lemma cacheAfter_map_of:
  "map_of (cacheAfter gen pre cache) =
     map_of cache ++ map_of (rev (map (\<lambda>x. (id_chunk x, projr (gen x))) pre))"
proof (induction pre arbitrary: cache)
  case Nil
  show ?case by (simp add: cacheAfter_def)
next
  case (Cons x pre)
  have "map_of (cacheSet (id_chunk x) (projr (gen x)) cache) =
          map_of cache ++ map_of [(id_chunk x, projr (gen x))]"
    by (simp add: cacheSet_map_of)
  then show ?case
    unfolding cacheAfter_Cons Cons.IH by (simp add: map_add_assoc del: map_add_upd)
qed

lemma cacheAfter_keys:
  "fst ` set (cacheAfter gen pre cache) = fst ` set cache \<union> id_chunk ` set pre"
proof (induction pre arbitrary: cache)
  case Nil
  show ?case by (simp add: cacheAfter_def)
next
  case (Cons x pre)
  show ?case unfolding cacheAfter_Cons Cons.IH by (simp add: cacheSet_keys)
qed

lemma cacheAfter_sorted:
  "sorted_wrt (<) (map fst cache) \<Longrightarrow> sorted_wrt (<) (map fst (cacheAfter gen pre cache))"
proof (induction pre arbitrary: cache)
  case Nil
  then show ?case by (simp add: cacheAfter_def)
next
  case (Cons x pre)
  then show ?case unfolding cacheAfter_Cons by (intro Cons.IH cacheSet_sorted)
qed

lemma cacheAfter_written:
  assumes "distinct (map id_chunk pre)" "x \<in> set pre"
  shows "map_of (cacheAfter gen pre cache) (id_chunk x) = Some (projr (gen x))"
proof -
  let ?ws = "rev (map (\<lambda>x. (id_chunk x, projr (gen x))) pre)"
  have "distinct (map fst ?ws)" using assms(1) by (simp add: rev_map [symmetric] comp_def)
  moreover have "(id_chunk x, projr (gen x)) \<in> set ?ws" using assms(2) by auto
  ultimately have "map_of ?ws (id_chunk x) = Some (projr (gen x))"
    by (simp only: map_of_eq_Some_iff)
  then show ?thesis by (simp add: cacheAfter_map_of map_add_Some_iff)
qed

lemma cacheAfter_untouched:
  assumes "k \<notin> id_chunk ` set pre"
  shows "map_of (cacheAfter gen pre cache) k = map_of cache k"
proof -
  let ?ws = "rev (map (\<lambda>x. (id_chunk x, projr (gen x))) pre)"
  have "k \<notin> fst ` set ?ws" using assms by force
  then have "map_of ?ws k = None" by (simp add: map_of_eq_None_iff)
  then show ?thesis by (simp add: cacheAfter_map_of map_add_def)
qed

section \<open>Batch generation (claim C5)\<close>

lemma after_after: "after es (after fs r) = after (es @ fs) r"
  by (simp add: after_def)

lemma generateLoop_halts:
  assumes "\<forall>x\<in>set pre. \<exists>ps. gen x = Inr ps" "gen c = Inl msg"
      and "completed + length pre < n"
  shows "generateLoop gen n completed (pre @ c # post) s =
           (s\<lparr> qaCache := cacheAfter gen pre (qaCache s),
               generationProgress := (if pre = [] then generationProgress s
                                      else (completed + length pre, n)),
               appError := Some (haltMessage c msg),
               isGeneratingAll := False \<rparr>,
            concat (map (\<lambda>(k, x). [GenerateQa (id_chunk x), SetProgress (k + 1) n, Sleep 5000])
                        (enumerate completed pre)) @ [GenerateQa (id_chunk c)])"
  using assms
proof (induction pre arbitrary: completed s)
  case Nil
  then show ?case by (simp add: cacheAfter_def haltMessage_def)
next
  case (Cons x pre)
  from Cons.prems obtain ps where ps: "gen x = Inr ps" by auto
  let ?s2 = "s\<lparr> qaCache := cacheSet (id_chunk x) ps (qaCache s),
                 generationProgress := (completed + 1, n) \<rparr>"
  have IH: "generateLoop gen n (completed + 1) (pre @ c # post) ?s2 =
           (?s2\<lparr> qaCache := cacheAfter gen pre (qaCache ?s2),
               generationProgress := (if pre = [] then generationProgress ?s2
                                      else (completed + 1 + length pre, n)),
               appError := Some (haltMessage c msg),
               isGeneratingAll := False \<rparr>,
            concat (map (\<lambda>(k, x). [GenerateQa (id_chunk x), SetProgress (k + 1) n, Sleep 5000])
                        (enumerate (completed + 1) pre)) @ [GenerateQa (id_chunk c)])"
    using Cons.prems by (intro Cons.IH) auto
  have lt: "completed + 1 < n" using Cons.prems by simp
  show ?case
    using ps lt IH by (simp add: Let_def after_def cacheAfter_def)
qed

lemma generateLoop_completes:
  assumes "\<forall>x\<in>set cs. \<exists>ps. gen x = Inr ps"
      and "completed + length cs = n"
  shows "generateLoop gen n completed cs s =
           (s\<lparr> qaCache := cacheAfter gen cs (qaCache s),
               generationProgress := (if cs = [] then generationProgress s else (n, n)),
               isGeneratingAll := False \<rparr>,
            concat (map (\<lambda>(k, x). [GenerateQa (id_chunk x), SetProgress (k + 1) n] @
                                   (if k + 1 < n then [Sleep 5000] else []))
                        (enumerate completed cs)))"
  using assms
proof (induction cs arbitrary: completed s)
  case Nil
  then show ?case by (simp add: cacheAfter_def)
next
  case (Cons x cs)
  from Cons.prems obtain ps where ps: "gen x = Inr ps" by auto
  let ?s2 = "s\<lparr> qaCache := cacheSet (id_chunk x) ps (qaCache s),
                 generationProgress := (completed + 1, n) \<rparr>"
  have IH: "generateLoop gen n (completed + 1) cs ?s2 =
           (?s2\<lparr> qaCache := cacheAfter gen cs (qaCache ?s2),
               generationProgress := (if cs = [] then generationProgress ?s2 else (n, n)),
               isGeneratingAll := False \<rparr>,
            concat (map (\<lambda>(k, x). [GenerateQa (id_chunk x), SetProgress (k + 1) n] @
                                   (if k + 1 < n then [Sleep 5000] else []))
                        (enumerate (completed + 1) cs)))"
    using Cons.prems by (intro Cons.IH) auto
  show ?case
  proof (cases "cs = []")
    case True
    with Cons.prems have "completed + 1 = n" by simp
    with ps True show ?thesis by (simp add: Let_def after_def cacheAfter_def)
  next
    case False
    with Cons.prems have "completed + 1 < n" by (cases cs) auto
    with ps False IH Cons.prems show ?thesis by (simp add: Let_def after_def cacheAfter_def)
  qed
qed

lemma handleGenerateAllQa_run:
  "(chunks s = pre @ c # post \<and> (\<forall>x\<in>set pre. \<exists>ps. gen x = Inr ps) \<and> gen c = Inl msg \<longrightarrow>
      handleGenerateAllQa gen s =
        (s\<lparr> qaCache := cacheAfter gen pre (qaCache s),
            generationProgress := (length pre, length (chunks s)),
            appError := Some (''Error on chunk #'' @ showNat (id_chunk c) @ '': '' @ msg @
                              ''. Halting process.''),
            isGeneratingAll := False \<rparr>,
         SetProgress 0 (length (chunks s)) #
         concat (map (\<lambda>(k, x). [GenerateQa (id_chunk x), SetProgress (k + 1) (length (chunks s)),
                                Sleep 5000])
                     (enumerate 0 pre)) @
         [GenerateQa (id_chunk c)])) \<and>
   (chunks s \<noteq> [] \<and> (\<forall>x\<in>set (chunks s). \<exists>ps. gen x = Inr ps) \<longrightarrow>
      handleGenerateAllQa gen s =
        (s\<lparr> qaCache := cacheAfter gen (chunks s) (qaCache s),
            generationProgress := (length (chunks s), length (chunks s)),
            appError := None,
            isGeneratingAll := False \<rparr>,
         SetProgress 0 (length (chunks s)) #
         concat (map (\<lambda>(k, x). [GenerateQa (id_chunk x), SetProgress (k + 1) (length (chunks s))] @
                                (if k + 1 < length (chunks s) then [Sleep 5000] else []))
                     (enumerate 0 (chunks s))))) \<and>
   (chunks s = [] \<longrightarrow> handleGenerateAllQa gen s = (s, []))"
proof (intro conjI impI)
  assume a: "chunks s = pre @ c # post \<and> (\<forall>x\<in>set pre. \<exists>ps. gen x = Inr ps) \<and> gen c = Inl msg"
  let ?n = "length (chunks s)"
  let ?s0 = "s\<lparr> isGeneratingAll := True, appError := None, generationProgress := (0, ?n) \<rparr>"
  from a have lt: "0 + length pre < ?n" by simp
  from a have pre: "\<forall>x\<in>set pre. \<exists>ps. gen x = Inr ps" and c: "gen c = Inl msg" by auto
  have "handleGenerateAllQa gen s = after [SetProgress 0 ?n] (generateLoop gen ?n 0 (pre @ c # post) ?s0)"
    using a by (simp add: handleGenerateAllQa_def Let_def)
  also note generateLoop_halts [OF pre c lt, of post ?s0]
  finally show "handleGenerateAllQa gen s =
        (s\<lparr> qaCache := cacheAfter gen pre (qaCache s),
            generationProgress := (length pre, ?n),
            appError := Some (''Error on chunk #'' @ showNat (id_chunk c) @ '': '' @ msg @
                              ''. Halting process.''),
            isGeneratingAll := False \<rparr>,
         SetProgress 0 ?n #
         concat (map (\<lambda>(k, x). [GenerateQa (id_chunk x), SetProgress (k + 1) ?n, Sleep 5000])
                     (enumerate 0 pre)) @
         [GenerateQa (id_chunk c)])"
    by (simp add: after_def haltMessage_def)
next
  assume a: "chunks s \<noteq> [] \<and> (\<forall>x\<in>set (chunks s). \<exists>ps. gen x = Inr ps)"
  let ?n = "length (chunks s)"
  let ?s0 = "s\<lparr> isGeneratingAll := True, appError := None, generationProgress := (0, ?n) \<rparr>"
  from a have ok: "\<forall>x\<in>set (chunks s). \<exists>ps. gen x = Inr ps" by simp
  have n: "0 + length (chunks s) = ?n" by simp
  have "handleGenerateAllQa gen s = after [SetProgress 0 ?n] (generateLoop gen ?n 0 (chunks s) ?s0)"
    using a by (simp add: handleGenerateAllQa_def Let_def)
  also note generateLoop_completes [OF ok n, of ?s0]
  finally show "handleGenerateAllQa gen s =
        (s\<lparr> qaCache := cacheAfter gen (chunks s) (qaCache s),
            generationProgress := (?n, ?n),
            appError := None,
            isGeneratingAll := False \<rparr>,
         SetProgress 0 ?n #
         concat (map (\<lambda>(k, x). [GenerateQa (id_chunk x), SetProgress (k + 1) ?n] @
                                (if k + 1 < ?n then [Sleep 5000] else []))
                     (enumerate 0 (chunks s))))"
    using a by (simp add: after_def)
next
  assume "chunks s = []"
  then show "handleGenerateAllQa gen s = (s, [])"
    by (simp add: handleGenerateAllQa_def)
qed

text \<open>
  Claim C5.  When the chunks before \<open>c\<close> in the chunk list all succeed and \<open>c\<close> fails,
  the run calls \<open>generateQaForChunk\<close> for these chunks in list order and for no chunk
  after \<open>c\<close>; it reports progress \<open>(0, total)\<close> at the start and \<open>(k, total)\<close> after the
  \<open>k\<close>-th success, and sleeps 5000 ms after each success; the error message names the id
  of \<open>c\<close>; nothing else of the state changes but the cache, the progress and the running
  flag.  The cache then holds, under the id of each chunk before \<open>c\<close>, the pairs generated
  for it (for an id that occurs twice, those of the later chunk), every entry it held
  before under another id is still there, no other key is added, and its keys stay in
  ascending order.  When every chunk succeeds, all are processed in list order, with the
  sleep after each one but the last, and the cache holds the pairs of all of them in the
  same way.  With no chunks nothing happens.
\<close>

theorem C5_batch_orchestration:
  "(chunks s = pre @ c # post \<and> (\<forall>x\<in>set pre. \<exists>ps. gen x = Inr ps) \<and> gen c = Inl msg \<longrightarrow>
      handleGenerateAllQa gen s =
        (s\<lparr> qaCache := cacheAfter gen pre (qaCache s),
            generationProgress := (length pre, length (chunks s)),
            appError := Some (''Error on chunk #'' @ showNat (id_chunk c) @ '': '' @ msg @
                              ''. Halting process.''),
            isGeneratingAll := False \<rparr>,
         SetProgress 0 (length (chunks s)) #
         concat (map (\<lambda>(k, x). [GenerateQa (id_chunk x), SetProgress (k + 1) (length (chunks s)),
                                Sleep 5000])
                     (enumerate 0 pre)) @
         [GenerateQa (id_chunk c)]) \<and>
      map_of (qaCache (fst (handleGenerateAllQa gen s))) =
        map_of (qaCache s) ++ map_of (rev (map (\<lambda>x. (id_chunk x, projr (gen x))) pre)) \<and>
      fst ` set (qaCache (fst (handleGenerateAllQa gen s))) =
        fst ` set (qaCache s) \<union> id_chunk ` set pre \<and>
      (distinct (map id_chunk pre) \<longrightarrow>
         (\<forall>x\<in>set pre. map_of (qaCache (fst (handleGenerateAllQa gen s))) (id_chunk x) =
                         Some (projr (gen x)))) \<and>
      (\<forall>k. k \<notin> id_chunk ` set pre \<longrightarrow>
            map_of (qaCache (fst (handleGenerateAllQa gen s))) k = map_of (qaCache s) k) \<and>
      (sorted_wrt (<) (map fst (qaCache s)) \<longrightarrow>
         sorted_wrt (<) (map fst (qaCache (fst (handleGenerateAllQa gen s)))))) \<and>
   (chunks s \<noteq> [] \<and> (\<forall>x\<in>set (chunks s). \<exists>ps. gen x = Inr ps) \<longrightarrow>
      handleGenerateAllQa gen s =
        (s\<lparr> qaCache := cacheAfter gen (chunks s) (qaCache s),
            generationProgress := (length (chunks s), length (chunks s)),
            appError := None,
            isGeneratingAll := False \<rparr>,
         SetProgress 0 (length (chunks s)) #
         concat (map (\<lambda>(k, x). [GenerateQa (id_chunk x), SetProgress (k + 1) (length (chunks s))] @
                                (if k + 1 < length (chunks s) then [Sleep 5000] else []))
                     (enumerate 0 (chunks s)))) \<and>
      map_of (qaCache (fst (handleGenerateAllQa gen s))) =
        map_of (qaCache s) ++ map_of (rev (map (\<lambda>x. (id_chunk x, projr (gen x))) (chunks s))) \<and>
      fst ` set (qaCache (fst (handleGenerateAllQa gen s))) =
        fst ` set (qaCache s) \<union> id_chunk ` set (chunks s) \<and>
      (distinct (map id_chunk (chunks s)) \<longrightarrow>
         (\<forall>x\<in>set (chunks s). map_of (qaCache (fst (handleGenerateAllQa gen s))) (id_chunk x) =
                         Some (projr (gen x)))) \<and>
      (\<forall>k. k \<notin> id_chunk ` set (chunks s) \<longrightarrow>
            map_of (qaCache (fst (handleGenerateAllQa gen s))) k = map_of (qaCache s) k) \<and>
      (sorted_wrt (<) (map fst (qaCache s)) \<longrightarrow>
         sorted_wrt (<) (map fst (qaCache (fst (handleGenerateAllQa gen s)))))) \<and>
   (chunks s = [] \<longrightarrow> handleGenerateAllQa gen s = (s, []))"
proof -
  have retained:
    "map_of (qaCache s') =
        map_of (qaCache s) ++ map_of (rev (map (\<lambda>x. (id_chunk x, projr (gen x))) ds)) \<and>
      fst ` set (qaCache s') = fst ` set (qaCache s) \<union> id_chunk ` set ds \<and>
      (distinct (map id_chunk ds) \<longrightarrow>
         (\<forall>x\<in>set ds. map_of (qaCache s') (id_chunk x) = Some (projr (gen x)))) \<and>
      (\<forall>k. k \<notin> id_chunk ` set ds \<longrightarrow> map_of (qaCache s') k = map_of (qaCache s) k) \<and>
      (sorted_wrt (<) (map fst (qaCache s)) \<longrightarrow> sorted_wrt (<) (map fst (qaCache s')))"
    if "qaCache s' = cacheAfter gen ds (qaCache s)" for s' ds
  proof -
    note c = that
    have 1: "map_of (qaCache s') =
        map_of (qaCache s) ++ map_of (rev (map (\<lambda>x. (id_chunk x, projr (gen x))) ds))"
      unfolding c by (rule cacheAfter_map_of)
    have 2: "fst ` set (qaCache s') = fst ` set (qaCache s) \<union> id_chunk ` set ds"
      unfolding c by (rule cacheAfter_keys)
    have 3: "distinct (map id_chunk ds) \<longrightarrow>
         (\<forall>x\<in>set ds. map_of (qaCache s') (id_chunk x) = Some (projr (gen x)))"
      unfolding c using cacheAfter_written [of ds _ gen "qaCache s"] by blast
    have 4: "\<forall>k. k \<notin> id_chunk ` set ds \<longrightarrow> map_of (qaCache s') k = map_of (qaCache s) k"
      unfolding c using cacheAfter_untouched [of _ ds gen "qaCache s"] by blast
    have 5: "sorted_wrt (<) (map fst (qaCache s)) \<longrightarrow> sorted_wrt (<) (map fst (qaCache s'))"
      unfolding c using cacheAfter_sorted [of "qaCache s" gen ds] by blast
    from 1 2 3 4 5 show ?thesis by (intro conjI)
  qed
  note run = handleGenerateAllQa_run [of s pre c post gen msg]
  have f1: "chunks s = pre @ c # post \<and> (\<forall>x\<in>set pre. \<exists>ps. gen x = Inr ps) \<and> gen c = Inl msg \<longrightarrow>
      handleGenerateAllQa gen s =
        (s\<lparr> qaCache := cacheAfter gen pre (qaCache s),
            generationProgress := (length pre, length (chunks s)),
            appError := Some (''Error on chunk #'' @ showNat (id_chunk c) @ '': '' @ msg @
                              ''. Halting process.''),
            isGeneratingAll := False \<rparr>,
         SetProgress 0 (length (chunks s)) #
         concat (map (\<lambda>(k, x). [GenerateQa (id_chunk x), SetProgress (k + 1) (length (chunks s)),
                                Sleep 5000])
                     (enumerate 0 pre)) @
         [GenerateQa (id_chunk c)]) \<and>
      map_of (qaCache (fst (handleGenerateAllQa gen s))) =
        map_of (qaCache s) ++ map_of (rev (map (\<lambda>x. (id_chunk x, projr (gen x))) pre)) \<and>
      fst ` set (qaCache (fst (handleGenerateAllQa gen s))) =
        fst ` set (qaCache s) \<union> id_chunk ` set pre \<and>
      (distinct (map id_chunk pre) \<longrightarrow>
         (\<forall>x\<in>set pre. map_of (qaCache (fst (handleGenerateAllQa gen s))) (id_chunk x) =
                         Some (projr (gen x)))) \<and>
      (\<forall>k. k \<notin> id_chunk ` set pre \<longrightarrow>
            map_of (qaCache (fst (handleGenerateAllQa gen s))) k = map_of (qaCache s) k) \<and>
      (sorted_wrt (<) (map fst (qaCache s)) \<longrightarrow>
         sorted_wrt (<) (map fst (qaCache (fst (handleGenerateAllQa gen s)))))"
  proof
    assume a: "chunks s = pre @ c # post \<and> (\<forall>x\<in>set pre. \<exists>ps. gen x = Inr ps) \<and> gen c = Inl msg"
    with run have r: "handleGenerateAllQa gen s =
        (s\<lparr> qaCache := cacheAfter gen pre (qaCache s),
            generationProgress := (length pre, length (chunks s)),
            appError := Some (''Error on chunk #'' @ showNat (id_chunk c) @ '': '' @ msg @
                              ''. Halting process.''),
            isGeneratingAll := False \<rparr>,
         SetProgress 0 (length (chunks s)) #
         concat (map (\<lambda>(k, x). [GenerateQa (id_chunk x), SetProgress (k + 1) (length (chunks s)),
                                Sleep 5000])
                     (enumerate 0 pre)) @
         [GenerateQa (id_chunk c)])" by blast
    then have "qaCache (fst (handleGenerateAllQa gen s)) = cacheAfter gen pre (qaCache s)" by simp
    from retained [OF this] r
    show "handleGenerateAllQa gen s =
        (s\<lparr> qaCache := cacheAfter gen pre (qaCache s),
            generationProgress := (length pre, length (chunks s)),
            appError := Some (''Error on chunk #'' @ showNat (id_chunk c) @ '': '' @ msg @
                              ''. Halting process.''),
            isGeneratingAll := False \<rparr>,
         SetProgress 0 (length (chunks s)) #
         concat (map (\<lambda>(k, x). [GenerateQa (id_chunk x), SetProgress (k + 1) (length (chunks s)),
                                Sleep 5000])
                     (enumerate 0 pre)) @
         [GenerateQa (id_chunk c)]) \<and>
      map_of (qaCache (fst (handleGenerateAllQa gen s))) =
        map_of (qaCache s) ++ map_of (rev (map (\<lambda>x. (id_chunk x, projr (gen x))) pre)) \<and>
      fst ` set (qaCache (fst (handleGenerateAllQa gen s))) =
        fst ` set (qaCache s) \<union> id_chunk ` set pre \<and>
      (distinct (map id_chunk pre) \<longrightarrow>
         (\<forall>x\<in>set pre. map_of (qaCache (fst (handleGenerateAllQa gen s))) (id_chunk x) =
                         Some (projr (gen x)))) \<and>
      (\<forall>k. k \<notin> id_chunk ` set pre \<longrightarrow>
            map_of (qaCache (fst (handleGenerateAllQa gen s))) k = map_of (qaCache s) k) \<and>
      (sorted_wrt (<) (map fst (qaCache s)) \<longrightarrow>
         sorted_wrt (<) (map fst (qaCache (fst (handleGenerateAllQa gen s)))))"
      by (intro conjI) blast+
  qed
  have f2: "chunks s \<noteq> [] \<and> (\<forall>x\<in>set (chunks s). \<exists>ps. gen x = Inr ps) \<longrightarrow>
      handleGenerateAllQa gen s =
        (s\<lparr> qaCache := cacheAfter gen (chunks s) (qaCache s),
            generationProgress := (length (chunks s), length (chunks s)),
            appError := None,
            isGeneratingAll := False \<rparr>,
         SetProgress 0 (length (chunks s)) #
         concat (map (\<lambda>(k, x). [GenerateQa (id_chunk x), SetProgress (k + 1) (length (chunks s))] @
                                (if k + 1 < length (chunks s) then [Sleep 5000] else []))
                     (enumerate 0 (chunks s)))) \<and>
      map_of (qaCache (fst (handleGenerateAllQa gen s))) =
        map_of (qaCache s) ++ map_of (rev (map (\<lambda>x. (id_chunk x, projr (gen x))) (chunks s))) \<and>
      fst ` set (qaCache (fst (handleGenerateAllQa gen s))) =
        fst ` set (qaCache s) \<union> id_chunk ` set (chunks s) \<and>
      (distinct (map id_chunk (chunks s)) \<longrightarrow>
         (\<forall>x\<in>set (chunks s). map_of (qaCache (fst (handleGenerateAllQa gen s))) (id_chunk x) =
                         Some (projr (gen x)))) \<and>
      (\<forall>k. k \<notin> id_chunk ` set (chunks s) \<longrightarrow>
            map_of (qaCache (fst (handleGenerateAllQa gen s))) k = map_of (qaCache s) k) \<and>
      (sorted_wrt (<) (map fst (qaCache s)) \<longrightarrow>
         sorted_wrt (<) (map fst (qaCache (fst (handleGenerateAllQa gen s)))))"
  proof
    assume a: "chunks s \<noteq> [] \<and> (\<forall>x\<in>set (chunks s). \<exists>ps. gen x = Inr ps)"
    with run have r: "handleGenerateAllQa gen s =
        (s\<lparr> qaCache := cacheAfter gen (chunks s) (qaCache s),
            generationProgress := (length (chunks s), length (chunks s)),
            appError := None,
            isGeneratingAll := False \<rparr>,
         SetProgress 0 (length (chunks s)) #
         concat (map (\<lambda>(k, x). [GenerateQa (id_chunk x), SetProgress (k + 1) (length (chunks s))] @
                                (if k + 1 < length (chunks s) then [Sleep 5000] else []))
                     (enumerate 0 (chunks s))))" by blast
    then have "qaCache (fst (handleGenerateAllQa gen s)) = cacheAfter gen (chunks s) (qaCache s)"
      by simp
    from retained [OF this] r
    show "handleGenerateAllQa gen s =
        (s\<lparr> qaCache := cacheAfter gen (chunks s) (qaCache s),
            generationProgress := (length (chunks s), length (chunks s)),
            appError := None,
            isGeneratingAll := False \<rparr>,
         SetProgress 0 (length (chunks s)) #
         concat (map (\<lambda>(k, x). [GenerateQa (id_chunk x), SetProgress (k + 1) (length (chunks s))] @
                                (if k + 1 < length (chunks s) then [Sleep 5000] else []))
                     (enumerate 0 (chunks s)))) \<and>
      map_of (qaCache (fst (handleGenerateAllQa gen s))) =
        map_of (qaCache s) ++ map_of (rev (map (\<lambda>x. (id_chunk x, projr (gen x))) (chunks s))) \<and>
      fst ` set (qaCache (fst (handleGenerateAllQa gen s))) =
        fst ` set (qaCache s) \<union> id_chunk ` set (chunks s) \<and>
      (distinct (map id_chunk (chunks s)) \<longrightarrow>
         (\<forall>x\<in>set (chunks s). map_of (qaCache (fst (handleGenerateAllQa gen s))) (id_chunk x) =
                         Some (projr (gen x)))) \<and>
      (\<forall>k. k \<notin> id_chunk ` set (chunks s) \<longrightarrow>
            map_of (qaCache (fst (handleGenerateAllQa gen s))) k = map_of (qaCache s) k) \<and>
      (sorted_wrt (<) (map fst (qaCache s)) \<longrightarrow>
         sorted_wrt (<) (map fst (qaCache (fst (handleGenerateAllQa gen s)))))"
      by (intro conjI) blast+
  qed
  have f3: "chunks s = [] \<longrightarrow> handleGenerateAllQa gen s = (s, [])"
    using run by blast
  from f1 f2 f3 show ?thesis by (intro conjI)
qed

text \<open>Three chunks, the second of which fails; and four chunks, the third of which
  fails after the first two were cached.\<close>

theorem C5_batch_orchestration_witness:
  "handleGenerateAllQa
     (\<lambda>c. if id_chunk c = 2 then Inl ''quota'' else Inr [\<lparr> input_text = ''Q?'', output_text = ''A'' \<rparr>])
     (initialState\<lparr> chunks :=
        [\<lparr> startPage = 1, endPage = 4, contextTitle = None, id_chunk = 1 \<rparr>,
         \<lparr> startPage = 5, endPage = 8, contextTitle = None, id_chunk = 2 \<rparr>,
         \<lparr> startPage = 9, endPage = 9, contextTitle = None, id_chunk = 3 \<rparr>] \<rparr>)
   = (initialState\<lparr> chunks :=
        [\<lparr> startPage = 1, endPage = 4, contextTitle = None, id_chunk = 1 \<rparr>,
         \<lparr> startPage = 5, endPage = 8, contextTitle = None, id_chunk = 2 \<rparr>,
         \<lparr> startPage = 9, endPage = 9, contextTitle = None, id_chunk = 3 \<rparr>],
        qaCache := [(1, [\<lparr> input_text = ''Q?'', output_text = ''A'' \<rparr>])],
        generationProgress := (1, 3),
        appError := Some ''Error on chunk #2: quota. Halting process.'',
        isGeneratingAll := False \<rparr>,
      [SetProgress 0 3, GenerateQa 1, SetProgress 1 3, Sleep 5000, GenerateQa 2]) \<and>
   handleGenerateAllQa
     (\<lambda>c. if id_chunk c = 3 then Inl ''quota''
           else if id_chunk c = 1 then Inr [\<lparr> input_text = ''Q1?'', output_text = ''A1'' \<rparr>]
           else Inr [\<lparr> input_text = ''Q2?'', output_text = ''A2'' \<rparr>])
     (initialState\<lparr> chunks :=
        [\<lparr> startPage = 1, endPage = 2, contextTitle = None, id_chunk = 2 \<rparr>,
         \<lparr> startPage = 5, endPage = 6, contextTitle = None, id_chunk = 1 \<rparr>,
         \<lparr> startPage = 7, endPage = 8, contextTitle = None, id_chunk = 3 \<rparr>,
         \<lparr> startPage = 9, endPage = 9, contextTitle = None, id_chunk = 4 \<rparr>] \<rparr>)
   = (initialState\<lparr> chunks :=
        [\<lparr> startPage = 1, endPage = 2, contextTitle = None, id_chunk = 2 \<rparr>,
         \<lparr> startPage = 5, endPage = 6, contextTitle = None, id_chunk = 1 \<rparr>,
         \<lparr> startPage = 7, endPage = 8, contextTitle = None, id_chunk = 3 \<rparr>,
         \<lparr> startPage = 9, endPage = 9, contextTitle = None, id_chunk = 4 \<rparr>],
        qaCache := [(1, [\<lparr> input_text = ''Q1?'', output_text = ''A1'' \<rparr>]),
                    (2, [\<lparr> input_text = ''Q2?'', output_text = ''A2'' \<rparr>])],
        generationProgress := (2, 4),
        appError := Some ''Error on chunk #3: quota. Halting process.'',
        isGeneratingAll := False \<rparr>,
      [SetProgress 0 4, GenerateQa 2, SetProgress 1 4, Sleep 5000,
       GenerateQa 1, SetProgress 2 4, Sleep 5000, GenerateQa 3])"
proof -
  let ?c1 = "\<lparr> startPage = 1, endPage = 4, contextTitle = None, id_chunk = 1 \<rparr>"
  let ?c2 = "\<lparr> startPage = 5, endPage = 8, contextTitle = None, id_chunk = 2 \<rparr>"
  let ?c3 = "\<lparr> startPage = 9, endPage = 9, contextTitle = None, id_chunk = 3 \<rparr>"
  let ?gen = "\<lambda>c::chunk. if id_chunk c = 2 then Inl ''quota''
                        else Inr [\<lparr> input_text = ''Q?'', output_text = ''A'' \<rparr>]"
  let ?s = "initialState\<lparr> chunks := [?c1, ?c2, ?c3] \<rparr>"
  let ?d1 = "\<lparr> startPage = 1, endPage = 2, contextTitle = None, id_chunk = 2 \<rparr>"
  let ?d2 = "\<lparr> startPage = 5, endPage = 6, contextTitle = None, id_chunk = 1 \<rparr>"
  let ?d3 = "\<lparr> startPage = 7, endPage = 8, contextTitle = None, id_chunk = 3 \<rparr>"
  let ?d4 = "\<lparr> startPage = 9, endPage = 9, contextTitle = None, id_chunk = 4 \<rparr>"
  let ?gen2 = "\<lambda>c::chunk. if id_chunk c = 3 then Inl ''quota''
           else if id_chunk c = 1 then Inr [\<lparr> input_text = ''Q1?'', output_text = ''A1'' \<rparr>]
           else Inr [\<lparr> input_text = ''Q2?'', output_text = ''A2'' \<rparr>]"
  let ?t = "initialState\<lparr> chunks := [?d1, ?d2, ?d3, ?d4] \<rparr>"
  have h: "chunks ?s = [?c1] @ ?c2 # [?c3] \<and> (\<forall>x\<in>set [?c1]. \<exists>ps. ?gen x = Inr ps) \<and>
           ?gen ?c2 = Inl ''quota''"
    by simp
  have h2: "chunks ?t = [?d1, ?d2] @ ?d3 # [?d4] \<and> (\<forall>x\<in>set [?d1, ?d2]. \<exists>ps. ?gen2 x = Inr ps) \<and>
           ?gen2 ?d3 = Inl ''quota''"
    by simp
  have digits: "showNat 2 = ''2''" "showNat 3 = ''3''" by code_simp+
  from C5_batch_orchestration [of ?s "[?c1]" ?c2 "[?c3]" ?gen "''quota''"] h
  have "handleGenerateAllQa ?gen ?s =
        (?s\<lparr> qaCache := cacheAfter ?gen [?c1] (qaCache ?s),
            generationProgress := (length [?c1], length (chunks ?s)),
            appError := Some (''Error on chunk #'' @ showNat (id_chunk ?c2) @ '': '' @ ''quota'' @
                              ''. Halting process.''),
            isGeneratingAll := False \<rparr>,
         SetProgress 0 (length (chunks ?s)) #
         concat (map (\<lambda>(k, x). [GenerateQa (id_chunk x), SetProgress (k + 1) (length (chunks ?s)),
                                Sleep 5000])
                     (enumerate 0 [?c1])) @
         [GenerateQa (id_chunk ?c2)])"
    by blast
  then have a: "handleGenerateAllQa ?gen ?s =
     (?s\<lparr> qaCache := [(1, [\<lparr> input_text = ''Q?'', output_text = ''A'' \<rparr>])],
        generationProgress := (1, 3),
        appError := Some ''Error on chunk #2: quota. Halting process.'',
        isGeneratingAll := False \<rparr>,
      [SetProgress 0 3, GenerateQa 1, SetProgress 1 3, Sleep 5000, GenerateQa 2])"
    by (simp add: cacheAfter_def initialState_def digits)
  from C5_batch_orchestration [of ?t "[?d1, ?d2]" ?d3 "[?d4]" ?gen2 "''quota''"] h2
  have "handleGenerateAllQa ?gen2 ?t =
        (?t\<lparr> qaCache := cacheAfter ?gen2 [?d1, ?d2] (qaCache ?t),
            generationProgress := (length [?d1, ?d2], length (chunks ?t)),
            appError := Some (''Error on chunk #'' @ showNat (id_chunk ?d3) @ '': '' @ ''quota'' @
                              ''. Halting process.''),
            isGeneratingAll := False \<rparr>,
         SetProgress 0 (length (chunks ?t)) #
         concat (map (\<lambda>(k, x). [GenerateQa (id_chunk x), SetProgress (k + 1) (length (chunks ?t)),
                                Sleep 5000])
                     (enumerate 0 [?d1, ?d2])) @
         [GenerateQa (id_chunk ?d3)])"
    by blast
  then have b: "handleGenerateAllQa ?gen2 ?t =
     (?t\<lparr> qaCache := [(1, [\<lparr> input_text = ''Q1?'', output_text = ''A1'' \<rparr>]),
                    (2, [\<lparr> input_text = ''Q2?'', output_text = ''A2'' \<rparr>])],
        generationProgress := (2, 4),
        appError := Some ''Error on chunk #3: quota. Halting process.'',
        isGeneratingAll := False \<rparr>,
      [SetProgress 0 4, GenerateQa 2, SetProgress 1 4, Sleep 5000,
       GenerateQa 1, SetProgress 2 4, Sleep 5000, GenerateQa 3])"
    by (simp add: cacheAfter_def initialState_def digits)
  from a b show ?thesis by (rule conjI)
qed

section \<open>Auto-split without a usable outline (claim C8)\<close>

text \<open>
  Claim C8, as the code has it.  Without a document, or when the outline flag is not set,
  \<open>autoSplitPdf\<close> returns at once: the state, and with it the chunk list, is unchanged and
  no error is shown.  When the flag is set and the outline is there but no bookmark
  resolves, the error \<open>Auto-split error: Failed to extract structure ...\<close> is shown, the
  chunk list is cleared, the id counter is reset and the selection is dropped; the same
  happens, with the error \<open>Auto-split error: No outline found in the document.\<close>, when the
  flag is set and the outline is \<open>null\<close> by the time of the split.  After the
  upload of a document the flag is off exactly when the document has no outline or an
  empty one; for such a document auto-split leaves a manually added chunk in place, and
  leaves the chunk list empty only when it was empty before.
\<close>

theorem C8_outline_failure:
  "(pdfDoc s = None \<or> hasOutline s \<noteq> Some True \<longrightarrow> autoSplitPdf s = s) \<and>
   (pdfDoc s = Some doc \<and> hasOutline s = Some True \<and> getOutline doc = Some outline \<and>
    processOutline doc outline = [] \<longrightarrow>
      autoSplitPdf s =
        s\<lparr> appError := Some (''Auto-split error: '' @
              ''Failed to extract structure from outline. Please use manual splitting.''),
           chunks := [], nextChunkId := 1, selectedChunk := None, isAutoSplitting := False \<rparr>) \<and>
   (pdfDoc s = Some doc \<and> hasOutline s = Some True \<and> getOutline doc = None \<longrightarrow>
      autoSplitPdf s =
        s\<lparr> appError := Some (''Auto-split error: '' @ ''No outline found in the document.''),
           chunks := [], nextChunkId := 1, selectedChunk := None, isAutoSplitting := False \<rparr>) \<and>
   (hasOutline (fileLoaded name doc) = Some False \<longleftrightarrow>
      getOutline doc = None \<or> getOutline doc = Some []) \<and>
   (getOutline doc = None \<or> getOutline doc = Some [] \<longrightarrow>
      autoSplitPdf (addChunk a b (fileLoaded name doc)) = addChunk a b (fileLoaded name doc) \<and>
      chunks (autoSplitPdf (addChunk a b (fileLoaded name doc))) \<noteq> [] \<and>
      autoSplitPdf (fileLoaded name doc) = fileLoaded name doc \<and>
      chunks (autoSplitPdf (fileLoaded name doc)) = [] \<and>
      appError (autoSplitPdf (fileLoaded name doc)) = None)"
proof (intro conjI impI)
  assume "pdfDoc s = None \<or> hasOutline s \<noteq> Some True"
  then show "autoSplitPdf s = s"
    by (auto simp: autoSplitPdf_def split: option.splits)
next
  assume "pdfDoc s = Some doc \<and> hasOutline s = Some True \<and> getOutline doc = Some outline \<and>
    processOutline doc outline = []"
  then show "autoSplitPdf s =
        s\<lparr> appError := Some (''Auto-split error: '' @
              ''Failed to extract structure from outline. Please use manual splitting.''),
           chunks := [], nextChunkId := 1, selectedChunk := None, isAutoSplitting := False \<rparr>"
    by (simp add: autoSplitPdf_def autoSplitTry_def Let_def)
next
  assume "pdfDoc s = Some doc \<and> hasOutline s = Some True \<and> getOutline doc = None"
  then show "autoSplitPdf s =
        s\<lparr> appError := Some (''Auto-split error: '' @ ''No outline found in the document.''),
           chunks := [], nextChunkId := 1, selectedChunk := None, isAutoSplitting := False \<rparr>"
    by (simp add: autoSplitPdf_def autoSplitTry_def Let_def)
next
  show "hasOutline (fileLoaded name doc) = Some False \<longleftrightarrow>
      getOutline doc = None \<or> getOutline doc = Some []"
    by (simp add: fileLoaded_def split: option.splits)
next
  assume no: "getOutline doc = None \<or> getOutline doc = Some []"
  then have h: "hasOutline (fileLoaded name doc) = Some False"
    by (auto simp: fileLoaded_def)
  then have h': "hasOutline (addChunk a b (fileLoaded name doc)) \<noteq> Some True"
    by (simp add: addChunk_def Let_def)
  show **: "autoSplitPdf (addChunk a b (fileLoaded name doc)) = addChunk a b (fileLoaded name doc)"
    using h' by (auto simp: autoSplitPdf_def split: option.splits)
  have "length (chunks (addChunk a b (fileLoaded name doc))) = Suc (length (chunks (fileLoaded name doc)))"
    by (simp add: addChunk_def Let_def)
  then show "chunks (autoSplitPdf (addChunk a b (fileLoaded name doc))) \<noteq> []"
    unfolding ** by auto
  show *: "autoSplitPdf (fileLoaded name doc) = fileLoaded name doc"
    using h by (auto simp: autoSplitPdf_def split: option.splits)
  show "chunks (autoSplitPdf (fileLoaded name doc)) = []"
    unfolding * by (simp add: fileLoaded_def initialState_def)
  show "appError (autoSplitPdf (fileLoaded name doc)) = None"
    unfolding * by (simp add: fileLoaded_def initialState_def)
qed

text \<open>An outline whose only item has no usable destination.\<close>

theorem C8_outline_failure_witness:
  "appError (autoSplitPdf (fileLoaded ''doc.pdf''
      \<lparr> numPages = 10, getOutline = Some [OutlineItem ''Chapter 1'' DestOther []],
        getDestination = (\<lambda>n. Rejects), getPageIndex = (\<lambda>r. Rejects) \<rparr>))
     = Some ''Auto-split error: Failed to extract structure from outline. Please use manual splitting.'' \<and>
   chunks (autoSplitPdf (fileLoaded ''doc.pdf''
      \<lparr> numPages = 10, getOutline = Some [OutlineItem ''Chapter 1'' DestOther []],
        getDestination = (\<lambda>n. Rejects), getPageIndex = (\<lambda>r. Rejects) \<rparr>)) = []"
proof -
  let ?doc = "\<lparr> numPages = 10, getOutline = Some [OutlineItem ''Chapter 1'' DestOther []],
        getDestination = (\<lambda>n. Rejects), getPageIndex = (\<lambda>r. Rejects) \<rparr>"
  let ?s = "fileLoaded ''doc.pdf'' ?doc"
  have h: "pdfDoc ?s = Some ?doc \<and> hasOutline ?s = Some True \<and>
           getOutline ?doc = Some [OutlineItem ''Chapter 1'' DestOther []] \<and>
           processOutline ?doc [OutlineItem ''Chapter 1'' DestOther []] = []"
    by (simp add: fileLoaded_def processOutline_def resolveItem_def)
  from C8_outline_failure [where s = ?s and doc = ?doc
      and outline = "[OutlineItem ''Chapter 1'' DestOther []]"] h
  have "autoSplitPdf ?s =
        ?s\<lparr> appError := Some (''Auto-split error: '' @
              ''Failed to extract structure from outline. Please use manual splitting.''),
           chunks := [], nextChunkId := 1, selectedChunk := None, isAutoSplitting := False \<rparr>"
    by blast
  then show ?thesis by simp
qed

text \<open>A document without an outline, one chunk added by hand: after \<open>autoSplitPdf\<close> the
  chunk list still holds that chunk.\<close>

theorem C8_no_outline_counterexample:
  "chunks (autoSplitPdf (addChunk 1 2 (fileLoaded ''doc.pdf''
      \<lparr> numPages = 10, getOutline = None,
        getDestination = (\<lambda>n. Rejects), getPageIndex = (\<lambda>r. Rejects) \<rparr>)))
   = [\<lparr> startPage = 1, endPage = 2, contextTitle = None, id_chunk = 1 \<rparr>]"
  by (simp add: autoSplitPdf_def addChunk_def fileLoaded_def initialState_def Let_def)

section \<open>Manual chunks (claims C9 and C10)\<close>

lemma halvings_small: "m < 2 ^ 53 \<Longrightarrow> halvings m = 0"
  by (subst halvings.simps) simp

lemma halvings_large:
  "2 ^ 53 \<le> m \<Longrightarrow> 0 < halvings m \<and> 2 ^ 52 \<le> m div 2 ^ halvings m"
proof (induction m rule: halvings.induct)
  case (1 m)
  from "1.prems" have nlt: "\<not> m < 2 ^ 53" by simp
  have unfold: "halvings m = Suc (halvings (m div 2))"
    using nlt by (subst halvings.simps) simp
  have div: "m div 2 ^ Suc (halvings (m div 2)) = (m div 2) div 2 ^ halvings (m div 2)"
    by (simp add: zdiv_zmult2_eq)
  show ?case
  proof (cases "m div 2 < 2 ^ 53")
    case True
    from "1.prems" have "2 ^ 52 \<le> m div 2" by simp
    with True show ?thesis
      unfolding unfold div by (simp add: halvings_small)
  next
    case False
    then have "2 ^ 53 \<le> m div 2" by simp
    from "1.IH" [OF nlt this] show ?thesis
      unfolding unfold div by simp
  qed
qed

lemma roundMagnitude_small: "m < 2 ^ 53 \<Longrightarrow> roundMagnitude m = m"
  by (simp add: roundMagnitude_def halvings_small)

lemma roundMagnitude_large: "2 ^ 53 \<le> m \<Longrightarrow> 2 ^ 53 \<le> roundMagnitude m"
proof -
  assume m: "2 ^ 53 \<le> m"
  define e where "e = halvings m"
  define q where "q = m div 2 ^ e"
  from halvings_large [OF m] have e: "0 < e" and q: "2 ^ 52 \<le> q"
    by (simp_all add: e_def q_def)
  from e have "(2::int) \<le> 2 ^ e"
    using power_increasing [of 1 e "2::int"] by simp
  with q have "2 ^ 52 * 2 \<le> q * 2 ^ e" by (intro mult_mono) simp_all
  then have a: "(2 ^ 53 :: int) \<le> q * 2 ^ e" by simp
  have "(0::int) \<le> 2 ^ e" by simp
  moreover have "(q + 1) * 2 ^ e = q * 2 ^ e + 2 ^ e" by (simp add: algebra_simps)
  ultimately have b: "(2 ^ 53 :: int) \<le> (q + 1) * 2 ^ e" using a by linarith
  show ?thesis
    using e a b unfolding roundMagnitude_def Let_def e_def [symmetric] q_def [symmetric] by auto
qed

lemma fromInt_small: "0 \<le> x \<Longrightarrow> x < 2 ^ 53 \<Longrightarrow> fromInt x = Finite x"
proof -
  assume x: "0 \<le> x" "x < 2 ^ 53"
  then have "roundMagnitude \<bar>x\<bar> = x" by (simp add: roundMagnitude_small)
  moreover have "x < 2 ^ 1024"
    using x(2) by (rule less_le_trans) simp
  ultimately show ?thesis using x by (simp add: fromInt_def Let_def)
qed

lemma fromInt_large: "2 ^ 53 \<le> x \<Longrightarrow> fromInt x = PosInfinity \<or> (\<exists>y. fromInt x = Finite y \<and> 2 ^ 53 \<le> y)"
proof -
  assume x: "2 ^ 53 \<le> x"
  then have "2 ^ 53 \<le> \<bar>x\<bar>" by simp
  from roundMagnitude_large [OF this] x show ?thesis by (auto simp: fromInt_def Let_def)
qed

lemma span_test:
  assumes "a \<le> b"
  shows "num_gt (num_plus (num_minus (Finite b) (Finite a)) (Finite 1)) (Finite 4) \<longleftrightarrow> b - a + 1 > 4"
proof (cases "b - a < 2 ^ 53")
  case True
  with assms have d: "fromInt (b - a) = Finite (b - a)" by (intro fromInt_small) simp_all
  show ?thesis
  proof (cases "b - a + 1 < 2 ^ 53")
    case True
    with assms have "fromInt (b - a + 1) = Finite (b - a + 1)" by (intro fromInt_small) simp_all
    then show ?thesis by (simp add: num_minus_def num_gt_def d)
  next
    case False
    then have big: "2 ^ 53 \<le> b - a + 1" by simp
    from fromInt_large [OF this] big show ?thesis
      by (auto simp: num_minus_def num_gt_def d)
  qed
next
  case False
  then have big: "2 ^ 53 \<le> b - a" by simp
  from fromInt_large [OF big] show ?thesis
  proof
    assume "fromInt (b - a) = PosInfinity"
    with big show ?thesis by (simp add: num_minus_def num_gt_def)
  next
    assume "\<exists>y. fromInt (b - a) = Finite y \<and> 2 ^ 53 \<le> y"
    then obtain y where y: "fromInt (b - a) = Finite y" "2 ^ 53 \<le> y" by blast
    then have "2 ^ 53 \<le> y + 1" by simp
    from fromInt_large [OF this] y big show ?thesis
      by (auto simp: num_minus_def num_gt_def)
  qed
qed

lemma handleAddChunk_rejects:
  assumes "rejected n (parseInt10 (startPage_input cm)) (parseInt10 (endPage_input cm))"
  shows "error_input (fst (handleAddChunk n (cm, app))) \<noteq> [] \<and> snd (handleAddChunk n (cm, app)) = app"
proof -
  define start where "start = parseInt10 (startPage_input cm)"
  define end_v where "end_v = parseInt10 (endPage_input cm)"
  have r: "rejected n start end_v" using assms by (simp add: start_def end_v_def)
  have h: "handleAddChunk n (cm, app) =
     (let cm = cm\<lparr> error_input := [] \<rparr>
      in if isNaN start \<or> isNaN end_v \<or> num_le start (Finite 0) \<or> num_le end_v (Finite 0)
         then (cm\<lparr> error_input := ''Page numbers must be greater than 0.'' \<rparr>, app)
         else if num_gt start end_v
         then (cm\<lparr> error_input := ''Start page cannot be greater than end page.'' \<rparr>, app)
         else if num_gt start (Finite n) \<or> num_gt end_v (Finite n)
         then (cm\<lparr> error_input := ''Page number cannot be greater than '' @ showInt n @ ''.'' \<rparr>, app)
         else if num_gt (num_plus (num_minus end_v start) (Finite 1)) (Finite 4)
         then (cm\<lparr> error_input := ''Chunk cannot exceed 4 pages.'' \<rparr>, app)
         else (cm\<lparr> startPage_input := [], endPage_input := [] \<rparr>,
               addChunk (integerValue start) (integerValue end_v) app))"
    by (simp add: handleAddChunk_def Let_def start_def end_v_def)
  show ?thesis
  proof (cases start)
    case (Finite a)
    note sa = this
    show ?thesis
    proof (cases end_v)
      case (Finite b)
      with sa r have c: "a \<le> 0 \<or> b \<le> 0 \<or> a > b \<or> a > n \<or> b > n \<or> b - a + 1 > 4"
        by (simp add: rejected_def)
      show ?thesis
      proof (cases "a \<le> b")
        case True
        from span_test [OF True] c sa Finite show ?thesis
          unfolding h Let_def by (auto simp: isNaN_def num_le_def num_gt_def)
      next
        case False
        with sa Finite show ?thesis
          unfolding h Let_def by (auto simp: isNaN_def num_le_def num_gt_def)
      qed
    qed (use sa in \<open>auto simp: h Let_def isNaN_def num_le_def num_gt_def\<close>)
  qed (cases end_v; auto simp: h Let_def isNaN_def num_le_def num_gt_def)+
qed

lemma handleAddChunk_accepts:
  assumes "\<not> rejected n (parseInt10 (startPage_input cm)) (parseInt10 (endPage_input cm))"
  shows "\<exists>a b. parseInt10 (startPage_input cm) = Finite a \<and> parseInt10 (endPage_input cm) = Finite b \<and>
           1 \<le> a \<and> a \<le> b \<and> b \<le> n \<and> b - a + 1 \<le> 4 \<and>
           handleAddChunk n (cm, app) =
             (cm\<lparr> error_input := [], startPage_input := [], endPage_input := [] \<rparr>, addChunk a b app)"
proof -
  from assms obtain a b where ab: "parseInt10 (startPage_input cm) = Finite a"
    "parseInt10 (endPage_input cm) = Finite b"
    and c: "0 < a" "0 < b" "a \<le> b" "a \<le> n" "b \<le> n" "b - a + 1 \<le> 4"
    by (auto simp: rejected_def split: number.splits)
  from span_test [OF c(3)] c(6)
  have "\<not> num_gt (num_plus (num_minus (Finite b) (Finite a)) (Finite 1)) (Finite 4)" by simp
  with ab c have "handleAddChunk n (cm, app) =
             (cm\<lparr> error_input := [], startPage_input := [], endPage_input := [] \<rparr>, addChunk a b app)"
    by (simp add: handleAddChunk_def Let_def isNaN_def num_le_def num_gt_def)
  with ab c show ?thesis by auto
qed

text \<open>What \<open>parseInt\<close> reads, and the rounding beyond \<open>2^53\<close>.\<close>

lemma parseInt10_examples:
  "parseInt10 ''2.5'' = Finite 2 \<and> parseInt10 ''3e2'' = Finite 3 \<and> parseInt10 ''7 pages'' = Finite 7 \<and>
   parseInt10 ''abc'' = NaN \<and> parseInt10 '' -12'' = Finite (- 12) \<and>
   parseInt10 ''9007199254740993'' = Finite 9007199254740992 \<and>
   parseInt10 ''9007199254740995'' = Finite 9007199254740996"
  by code_simp

text \<open>
  Claim C9, as the code has it.  With \<open>start\<close> and \<open>end\<close> the numbers \<open>parseInt\<close> reads
  from the two inputs (the leading digits after an optional sign, whatever follows them
  ignored, rounded to a double): when either is \<open>NaN\<close>, infinite or not positive, or
  \<open>start\<close> exceeds \<open>end\<close>, or either exceeds the page count, or the span
  \<open>end - start + 1\<close> exceeds 4, an error message is set and the application state is
  unchanged; otherwise no error is set, the inputs are cleared and the chunk is added.
  So every chunk of the resulting list that was not there before lies within the document
  and spans at most four pages.  Inputs that begin with digits are read up to the first
  character that is no digit: \<open>2.5\<close> is 2 and \<open>3e2\<close> is 3.
\<close>

theorem C9_manual_add_validation:
  "let start = parseInt10 (startPage_input cm);
       end_v = parseInt10 (endPage_input cm);
       r = handleAddChunk n (cm, app)
   in (rejected n start end_v \<longrightarrow> error_input (fst r) \<noteq> [] \<and> snd r = app) \<and>
      (\<not> rejected n start end_v \<longrightarrow>
         error_input (fst r) = [] \<and> startPage_input (fst r) = [] \<and> endPage_input (fst r) = [] \<and>
         snd r = addChunk (integerValue start) (integerValue end_v) app) \<and>
      (\<forall>c\<in>set (chunks (snd r)).
         c \<in> set (chunks app) \<or>
         (1 \<le> startPage c \<and> startPage c \<le> endPage c \<and> endPage c \<le> n \<and>
          endPage c - startPage c + 1 \<le> 4 \<and> id_chunk c = nextChunkId app)) \<and>
      parseInt10 ''2.5'' = Finite 2 \<and> parseInt10 ''3e2'' = Finite 3 \<and>
      parseInt10 ''abc'' = NaN \<and> parseInt10 '' -12'' = Finite (- 12) \<and>
      parseInt10 ''9007199254740993'' = Finite 9007199254740992"
proof -
  define start where "start = parseInt10 (startPage_input cm)"
  define end_v where "end_v = parseInt10 (endPage_input cm)"
  define r where "r = handleAddChunk n (cm, app)"
  have rej: "error_input (fst r) \<noteq> [] \<and> snd r = app" if "rejected n start end_v"
    using that handleAddChunk_rejects [of n cm app] by (simp add: start_def end_v_def r_def)
  have acc: "\<exists>a b. start = Finite a \<and> end_v = Finite b \<and>
           1 \<le> a \<and> a \<le> b \<and> b \<le> n \<and> b - a + 1 \<le> 4 \<and>
           r = (cm\<lparr> error_input := [], startPage_input := [], endPage_input := [] \<rparr>, addChunk a b app)"
    if "\<not> rejected n start end_v"
    using that handleAddChunk_accepts [of n cm app] by (simp add: start_def end_v_def r_def)
  have acc': "error_input (fst r) = [] \<and> startPage_input (fst r) = [] \<and> endPage_input (fst r) = [] \<and>
         snd r = addChunk (integerValue start) (integerValue end_v) app"
    if "\<not> rejected n start end_v"
    using acc [OF that] by auto
  have span: "\<forall>c\<in>set (chunks (snd r)).
         c \<in> set (chunks app) \<or>
         (1 \<le> startPage c \<and> startPage c \<le> endPage c \<and> endPage c \<le> n \<and>
          endPage c - startPage c + 1 \<le> 4 \<and> id_chunk c = nextChunkId app)"
  proof (cases "rejected n start end_v")
    case True
    with rej show ?thesis by simp
  next
    case False
    from acc [OF False] show ?thesis
      by (auto simp: addChunk_def Let_def)
  qed
  show ?thesis
    unfolding Let_def start_def [symmetric] end_v_def [symmetric] r_def [symmetric]
    using rej acc' span parseInt10_examples by blast
qed

theorem C9_manual_add_validation_witness:
  "snd (handleAddChunk 10 (\<lparr> startPage_input = ''3'', endPage_input = ''9'', error_input = [] \<rparr>,
                           initialState)) = initialState \<and>
   chunks (snd (handleAddChunk 10 (\<lparr> startPage_input = ''3'', endPage_input = ''6'', error_input = [] \<rparr>,
                           initialState)))
     = [\<lparr> startPage = 3, endPage = 6, contextTitle = None, id_chunk = 1 \<rparr>]"
proof -
  let ?cm1 = "\<lparr> startPage_input = ''3'', endPage_input = ''9'', error_input = [] \<rparr>"
  let ?cm2 = "\<lparr> startPage_input = ''3'', endPage_input = ''6'', error_input = [] \<rparr>"
  have p: "parseInt10 ''3'' = Finite 3" "parseInt10 ''9'' = Finite 9" "parseInt10 ''6'' = Finite 6"
    by code_simp+
  have r1: "rejected 10 (parseInt10 (startPage_input ?cm1)) (parseInt10 (endPage_input ?cm1))"
    by (simp add: p rejected_def)
  have r2: "\<not> rejected 10 (parseInt10 (startPage_input ?cm2)) (parseInt10 (endPage_input ?cm2))"
    by (simp add: p rejected_def)
  from C9_manual_add_validation [where n = 10 and cm = ?cm1 and app = initialState] r1
  have a: "snd (handleAddChunk 10 (?cm1, initialState)) = initialState"
    unfolding Let_def by blast
  from C9_manual_add_validation [where n = 10 and cm = ?cm2 and app = initialState] r2
  have "snd (handleAddChunk 10 (?cm2, initialState)) =
          addChunk (integerValue (parseInt10 (startPage_input ?cm2)))
                   (integerValue (parseInt10 (endPage_input ?cm2))) initialState"
    unfolding Let_def by blast
  then have b: "chunks (snd (handleAddChunk 10 (?cm2, initialState)))
     = [\<lparr> startPage = 3, endPage = 6, contextTitle = None, id_chunk = 1 \<rparr>]"
    by (simp add: p addChunk_def initialState_def Let_def)
  from a b show ?thesis by (rule conjI)
qed

text \<open>On a document of 10 pages the inputs \<open>2.5\<close> and \<open>3e2\<close> (that is, 300) are read as
  2 and 3: no error is set and the chunk 2-3 is added.\<close>

theorem C9_not_an_integer_counterexample:
  "chunks (snd (handleAddChunk 10
      (\<lparr> startPage_input = ''2.5'', endPage_input = ''3e2'', error_input = [] \<rparr>, initialState)))
     = [\<lparr> startPage = 2, endPage = 3, contextTitle = None, id_chunk = 1 \<rparr>] \<and>
   error_input (fst (handleAddChunk 10
      (\<lparr> startPage_input = ''2.5'', endPage_input = ''3e2'', error_input = [] \<rparr>, initialState)))
     = []"
  by code_simp

text \<open>Two inputs beyond \<open>2^53\<close> that differ as integers are the same number, so the
  test \<open>start > end\<close> does not fire and the page count is what stops the request.\<close>

lemma handleAddChunk_rounded_example:
  "error_input (fst (handleAddChunk 10
      (\<lparr> startPage_input = ''9007199254740993'', endPage_input = ''9007199254740992'',
         error_input = [] \<rparr>, initialState)))
   = ''Page number cannot be greater than 10.''"
  by code_simp

lemma generatedIds_loop:
  "\<exists>k. generatedIds (snd (generateLoop gen n completed cs s)) = take k (map id_chunk cs) \<and>
       ((\<forall>x\<in>set cs. \<exists>ps. gen x = Inr ps) \<longrightarrow> k = length cs)"
proof (induction cs arbitrary: completed s)
  case Nil
  show ?case by (simp add: generatedIds_def)
next
  case (Cons c cs)
  show ?case
  proof (cases "gen c")
    case (Inl msg)
    then have "generatedIds (snd (generateLoop gen n completed (c # cs) s)) =
                 take 1 (map id_chunk (c # cs))"
      by (simp add: generatedIds_def)
    moreover have "\<not> (\<forall>x\<in>set (c # cs). \<exists>ps. gen x = Inr ps)" using Inl by simp
    ultimately show ?thesis by blast
  next
    case (Inr ps)
    let ?s2 = "s\<lparr> qaCache := cacheSet (id_chunk c) ps (qaCache s),
                   generationProgress := (completed + 1, n) \<rparr>"
    from Cons.IH [of "completed + 1" ?s2] obtain k
      where k: "generatedIds (snd (generateLoop gen n (completed + 1) cs ?s2)) = take k (map id_chunk cs)"
        "(\<forall>x\<in>set cs. \<exists>ps. gen x = Inr ps) \<longrightarrow> k = length cs" by blast
    have "generatedIds (snd (generateLoop gen n completed (c # cs) s)) =
            id_chunk c # generatedIds (snd (generateLoop gen n (completed + 1) cs ?s2))"
      using Inr by (simp add: Let_def after_def generatedIds_def)
    with k(1) have "generatedIds (snd (generateLoop gen n completed (c # cs) s)) =
            take (Suc k) (map id_chunk (c # cs))" by simp
    moreover have "(\<forall>x\<in>set (c # cs). \<exists>ps. gen x = Inr ps) \<longrightarrow> Suc k = length (c # cs)"
      using k(2) by simp
    ultimately show ?thesis by blast
  qed
qed

lemma generatedIds_run:
  "\<exists>k. generatedIds (snd (handleGenerateAllQa gen s)) = take k (map id_chunk (chunks s)) \<and>
       ((\<forall>x\<in>set (chunks s). \<exists>ps. gen x = Inr ps) \<longrightarrow> k = length (chunks s))"
proof (cases "chunks s = []")
  case True
  then show ?thesis by (simp add: handleGenerateAllQa_def generatedIds_def)
next
  case False
  let ?n = "length (chunks s)"
  let ?s0 = "s\<lparr> isGeneratingAll := True, appError := None, generationProgress := (0, ?n) \<rparr>"
  have "generatedIds (snd (handleGenerateAllQa gen s)) =
          generatedIds (snd (generateLoop gen ?n 0 (chunks s) ?s0))"
    using False by (simp add: handleGenerateAllQa_def Let_def after_def generatedIds_def)
  with generatedIds_loop [of gen ?n 0 "chunks s" ?s0] show ?thesis by simp
qed

text \<open>
  Claim C10.  \<open>addChunk\<close> appends the new chunk, whose id is the current value of the id
  counter, and sorts the whole list by \<open>startPage\<close>: the resulting list is ordered by
  \<open>startPage\<close> and holds the old chunks and the new one.  The counter grows by one, so ids
  follow the order of creation: when all ids were below the counter they still are, and
  the new id is the largest.  A batch run over the resulting state calls
  \<open>generateQaForChunk\<close> along the chunk list: for a prefix of it, and for all of it when
  every chunk succeeds.
\<close>

theorem C10_manual_add_order:
  "let newChunk = \<lparr> startPage = start, endPage = end_arg, contextTitle = None,
                     id_chunk = nextChunkId s \<rparr>;
       s' = addChunk start end_arg s
   in chunks s' = sort_key startPage (chunks s @ [newChunk]) \<and>
      sorted (map startPage (chunks s')) \<and>
      set (chunks s') = insert newChunk (set (chunks s)) \<and>
      length (chunks s') = length (chunks s) + 1 \<and>
      nextChunkId s' = nextChunkId s + 1 \<and>
      ((\<forall>x\<in>set (chunks s). id_chunk x < nextChunkId s) \<longrightarrow>
         (\<forall>x\<in>set (chunks s'). id_chunk x < nextChunkId s') \<and>
         (\<forall>x\<in>set (chunks s). id_chunk x < id_chunk newChunk)) \<and>
      (\<exists>k. generatedIds (snd (handleGenerateAllQa gen s')) = take k (map id_chunk (chunks s')) \<and>
           ((\<forall>x\<in>set (chunks s'). \<exists>ps. gen x = Inr ps) \<longrightarrow> k = length (chunks s')))"
proof -
  define newChunk where "newChunk = \<lparr> startPage = start, endPage = end_arg, contextTitle = None,
                     id_chunk = nextChunkId s \<rparr>"
  define s' where "s' = addChunk start end_arg s"
  have c: "chunks s' = sort_key startPage (chunks s @ [newChunk])"
    by (simp add: s'_def newChunk_def addChunk_def Let_def)
  have n: "nextChunkId s' = nextChunkId s + 1"
    by (simp add: s'_def addChunk_def Let_def)
  have sorted: "sorted (map startPage (chunks s'))" by (simp add: c)
  have set: "set (chunks s') = insert newChunk (set (chunks s))" by (simp add: c)
  have len: "length (chunks s') = length (chunks s) + 1" by (simp add: c)
  have ids: "(\<forall>x\<in>set (chunks s). id_chunk x < nextChunkId s) \<longrightarrow>
         (\<forall>x\<in>set (chunks s'). id_chunk x < nextChunkId s') \<and>
         (\<forall>x\<in>set (chunks s). id_chunk x < id_chunk newChunk)"
    by (auto simp: set n newChunk_def)
  note run = generatedIds_run [of gen s']
  show ?thesis
    unfolding Let_def newChunk_def [symmetric] s'_def [symmetric]
    using c sorted set len n ids run by (intro conjI)
qed

text \<open>Pages 5-6 added first, pages 1-2 second: the list is in page order, not in id
  order.\<close>

theorem C10_manual_add_order_witness:
  "map id_chunk (chunks (addChunk 1 2 (addChunk 5 6 initialState))) = [2, 1] \<and>
   map startPage (chunks (addChunk 1 2 (addChunk 5 6 initialState))) = [1, 5]"
proof -
  let ?s1 = "addChunk 5 6 initialState"
  have s1: "chunks ?s1 = [\<lparr> startPage = 5, endPage = 6, contextTitle = None, id_chunk = 1 \<rparr>]"
    "nextChunkId ?s1 = 2"
    by (simp_all add: addChunk_def initialState_def Let_def)
  from C10_manual_add_order [of 1 2 ?s1]
  have "chunks (addChunk 1 2 ?s1) =
          sort_key startPage (chunks ?s1 @ [\<lparr> startPage = 1, endPage = 2, contextTitle = None,
                                             id_chunk = nextChunkId ?s1 \<rparr>])"
    unfolding Let_def by blast
  then show ?thesis by (simp add: s1)
qed

section \<open>Export (claim C4)\<close>

lemma quote_keys:
  "quoteJSONString ''messages'' = dquote @ ''messages'' @ dquote"
  "quoteJSONString ''role'' = dquote @ ''role'' @ dquote"
  "quoteJSONString ''content'' = dquote @ ''content'' @ dquote"
  "quoteJSONString ''user'' = dquote @ ''user'' @ dquote"
  "quoteJSONString ''model'' = dquote @ ''model'' @ dquote"
  by code_simp+

lemma stringify_lineObject: "stringify (lineObject pair) = exportLine pair"
  by (simp add: lineObject_def exportLine_def quote_keys)

lemma cacheOf_snoc: "cacheOf (ws @ [w]) = cacheSet (fst w) (snd w) (cacheOf ws)"
  by (simp add: cacheOf_def)

lemma cacheOf_props:
  "sorted_wrt (<) (map fst (cacheOf ws)) \<and>
   fst ` set (cacheOf ws) = fst ` set ws \<and>
   map_of (cacheOf ws) = map_of (rev ws)"
proof (induction ws rule: rev_induct)
  case Nil
  show ?case by (simp add: cacheOf_def)
next
  case (snoc w ws)
  then show ?case
    by (cases w) (simp add: cacheOf_snoc cacheSet_sorted cacheSet_keys cacheSet_map_of)
qed

lemma values_by_keys:
  "distinct (map fst c) \<Longrightarrow> map snd c = map (\<lambda>k. the (map_of c k)) (map fst c)"
proof (induction c)
  case Nil
  show ?case by simp
next
  case (Cons kv c)
  obtain k v where kv: "kv = (k, v)" by (cases kv)
  from Cons.prems have "k \<notin> fst ` set c" "distinct (map fst c)" by (auto simp: kv)
  then have "map (\<lambda>k'. the (map_of ((k, v) # c) k')) (map fst c) =
             map (\<lambda>k'. the (map_of c k')) (map fst c)"
    by (intro map_cong) auto
  with Cons.IH [OF \<open>distinct (map fst c)\<close>] show ?case by (simp add: kv)
qed

lemma objectValues_cacheOf:
  "objectValues (cacheOf ws) =
     map (\<lambda>k. the (map_of (rev ws) k)) (sorted_list_of_set (fst ` set ws))"
proof -
  from cacheOf_props [of ws]
  have s: "sorted_wrt (<) (map fst (cacheOf ws))"
    and k: "fst ` set (cacheOf ws) = fst ` set ws"
    and m: "map_of (cacheOf ws) = map_of (rev ws)" by simp_all
  from s have sd: "sorted (map fst (cacheOf ws))" "distinct (map fst (cacheOf ws))"
    by (simp_all add: strict_sorted_iff)
  have "sorted_list_of_set (set (map fst (cacheOf ws))) = map fst (cacheOf ws)"
    using sd by (rule sorted_list_of_set.idem_if_sorted_distinct)
  then have keys: "map fst (cacheOf ws) = sorted_list_of_set (fst ` set ws)"
    using k by simp
  show ?thesis
    unfolding objectValues_def using values_by_keys [OF sd(2)] by (simp add: keys m)
qed

text \<open>
  Claim C4, as the code has it.  For a cache built by any sequence of writes: when it holds
  at least one pair, the export offers the file \<open>qa_dataset.json\<close> whose content is one
  line per pair, joined by line feeds, each of the form
  \<open>{"messages":[{"role":"user","content":I},{"role":"model","content":O}]}\<close> with \<open>I\<close> and
  \<open>O\<close> the JSON strings of \<open>input_text\<close> and \<open>output_text\<close>; the pairs are taken chunk
  by chunk in ascending order of the chunk ids, each chunk with the pairs last written for
  it, in their order.  The state is unchanged.  When the cache holds no pair, nothing is
  offered and an error is shown.
\<close>

theorem C4_export:
  "let allPairs = concat (map (\<lambda>k. the (map_of (rev writes) k))
                              (sorted_list_of_set (fst ` set writes)))
   in qaCache s = cacheOf writes \<longrightarrow>
        (allPairs \<noteq> [] \<longrightarrow>
           handleSaveAllQa s =
             (s, Some \<lparr> download_name = ''qa_dataset.json'',
                        download_type = ''application/json'',
                        download_content = joinWith [CHR 0x0A] (map exportLine allPairs) \<rparr>)) \<and>
        (allPairs = [] \<longrightarrow>
           handleSaveAllQa s =
             (s\<lparr> appError := Some ''No Q&A pairs have been generated to save.'' \<rparr>, None))"
proof -
  have lines: "jsonLines ps = joinWith [CHR 0x0A] (map exportLine ps)" for ps
    by (simp add: jsonLines_def stringify_lineObject)
  show ?thesis
    unfolding Let_def
    by (auto simp: handleSaveAllQa_def Let_def objectValues_cacheOf lines)
qed

text \<open>The example of the specification, the entry of chunk 2 written first.\<close>

theorem C4_export_witness:
  "handleSaveAllQa
     (initialState\<lparr> qaCache := cacheOf
        [(2, [\<lparr> input_text = ''Q2?'', output_text = ''A2'' \<rparr>]),
         (1, [\<lparr> input_text = ''Q1?'', output_text = ''A1'' \<rparr>])] \<rparr>)
   = (initialState\<lparr> qaCache := cacheOf
        [(2, [\<lparr> input_text = ''Q2?'', output_text = ''A2'' \<rparr>]),
         (1, [\<lparr> input_text = ''Q1?'', output_text = ''A1'' \<rparr>])] \<rparr>,
      Some \<lparr> download_name = ''qa_dataset.json'',
             download_type = ''application/json'',
             download_content =
               exportLine \<lparr> input_text = ''Q1?'', output_text = ''A1'' \<rparr> @ [CHR 0x0A] @
               exportLine \<lparr> input_text = ''Q2?'', output_text = ''A2'' \<rparr> \<rparr>)"
proof -
  let ?p1 = "\<lparr> input_text = ''Q1?'', output_text = ''A1'' \<rparr>"
  let ?p2 = "\<lparr> input_text = ''Q2?'', output_text = ''A2'' \<rparr>"
  let ?ws = "[(2::nat, [?p2]), (1, [?p1])]"
  let ?s = "initialState\<lparr> qaCache := cacheOf ?ws \<rparr>"
  have keys: "sorted_list_of_set (fst ` set ?ws) = [1, 2]"
    by code_simp
  have all: "concat (map (\<lambda>k. the (map_of (rev ?ws) k)) (sorted_list_of_set (fst ` set ?ws)))
             = [?p1, ?p2]"
    unfolding keys by simp
  have c: "qaCache ?s = cacheOf ?ws" by simp
  from C4_export [of ?ws ?s] c
  have "handleSaveAllQa ?s =
             (?s, Some \<lparr> download_name = ''qa_dataset.json'',
                        download_type = ''application/json'',
                        download_content = joinWith [CHR 0x0A] (map exportLine [?p1, ?p2]) \<rparr>)"
    unfolding Let_def all by blast
  then show ?thesis by simp
qed

text \<open>Pages 5-6 added first (id 1), pages 1-2 second (id 2), then a batch run: the chunk
  list is in page order, chunk 2 before chunk 1, and the export is in id order, chunk 1
  before chunk 2.\<close>

theorem C4_chunk_list_order_counterexample:
  "map id_chunk (chunks (fst (handleGenerateAllQa
        (\<lambda>c. Inr [\<lparr> input_text = ''Q'' @ showNat (id_chunk c) @ ''?'',
                     output_text = ''A'' @ showNat (id_chunk c) \<rparr>])
        (addChunk 1 2 (addChunk 5 6 initialState)))))
     = [2, 1] \<and>
   concat (objectValues (qaCache (fst (handleGenerateAllQa
        (\<lambda>c. Inr [\<lparr> input_text = ''Q'' @ showNat (id_chunk c) @ ''?'',
                     output_text = ''A'' @ showNat (id_chunk c) \<rparr>])
        (addChunk 1 2 (addChunk 5 6 initialState))))))
     = [\<lparr> input_text = ''Q1?'', output_text = ''A1'' \<rparr>,
        \<lparr> input_text = ''Q2?'', output_text = ''A2'' \<rparr>] \<and>
   pairsInChunkListOrder (fst (handleGenerateAllQa
        (\<lambda>c. Inr [\<lparr> input_text = ''Q'' @ showNat (id_chunk c) @ ''?'',
                     output_text = ''A'' @ showNat (id_chunk c) \<rparr>])
        (addChunk 1 2 (addChunk 5 6 initialState))))
     = [\<lparr> input_text = ''Q2?'', output_text = ''A2'' \<rparr>,
        \<lparr> input_text = ''Q1?'', output_text = ''A1'' \<rparr>] \<and>
   snd (handleSaveAllQa (fst (handleGenerateAllQa
        (\<lambda>c. Inr [\<lparr> input_text = ''Q'' @ showNat (id_chunk c) @ ''?'',
                     output_text = ''A'' @ showNat (id_chunk c) \<rparr>])
        (addChunk 1 2 (addChunk 5 6 initialState)))))
     = Some \<lparr> download_name = ''qa_dataset.json'',
              download_type = ''application/json'',
              download_content =
                exportLine \<lparr> input_text = ''Q1?'', output_text = ''A1'' \<rparr> @ [CHR 0x0A] @
                exportLine \<lparr> input_text = ''Q2?'', output_text = ''A2'' \<rparr> \<rparr>"
  by code_simp

end
